theory Spec2Isabelle
  imports Main "HOL-Library.Word"
begin

unbundle bit_operations_syntax

section \<open>Physical page allocator (kernel/kalloc.c)\<close>

text \<open>
  Addresses are \<open>uint64\<close>, reference counters are C \<open>int\<close> (32 bits, read as two's
  complement with \<open>sint\<close>). The constants \<open>KERNBASE\<close>, \<open>PHYSTOP\<close>, \<open>PGSIZE\<close> and the
  macro \<open>PGROUNDUP\<close> come from headers that are not part of the sources at hand and
  \<open>end\<close> is set by the linker, so they are parameters of the model, collected in a
  record.
\<close>

type_synonym u64 = "64 word"
type_synonym u32 = "32 word"
type_synonym u8 = "8 word"

record layout =
  KERNBASE :: u64
  PHYSTOP :: u64
  PGSIZE :: u64
  kend :: u64
  PGROUNDUP :: "u64 \<Rightarrow> u64"

text \<open>
  \<open>struct kmem\<close>: the head of the free list and the array of reference counters. The
  free list is threaded through the pages themselves (\<open>struct run\<close> at offset 0 of a
  page), so the model keeps the memory of the pages too: \<open>page_next\<close> is the 8-byte
  word at the start of the page at a given address (the field \<open>next\<close> of
  \<open>struct run\<close>), \<open>page_rest\<close> the bytes after it. The null pointer is 0.
\<close>

record kmem =
  freelist :: u64
  ref_counter :: "u64 \<Rightarrow> u32"
  page_next :: "u64 \<Rightarrow> u64"
  page_rest :: "u64 \<Rightarrow> u8 list"

datatype fatal = Panic string

definition PA2IDX :: "layout \<Rightarrow> u64 \<Rightarrow> u64" where
  "PA2IDX L pa = (pa - KERNBASE L) div PGSIZE L"

text \<open>\<open>memset(pa, c, PGSIZE)\<close>: every byte of the page becomes \<open>c\<close>, the first eight too.\<close>

definition rep8 :: "u8 \<Rightarrow> u64" where
  "rep8 c = ucast c * 0x0101010101010101"

definition memset_page :: "layout \<Rightarrow> u64 \<Rightarrow> u8 \<Rightarrow> kmem \<Rightarrow> kmem" where
  "memset_page L pa c s =
     s\<lparr>page_next := (page_next s)(pa := rep8 c),
       page_rest := (page_rest s)(pa := replicate (unat (PGSIZE L) - 8) c)\<rparr>"

definition kfree :: "layout \<Rightarrow> u64 \<Rightarrow> kmem \<Rightarrow> fatal + kmem" where
  "kfree L pa s =
     (if pa mod PGSIZE L \<noteq> 0 \<or> pa < kend L \<or> pa \<ge> PHYSTOP L then Inl (Panic ''kfree'')
      else
        let idx = PA2IDX L pa;
            s1 = s\<lparr>ref_counter := (ref_counter s)(idx := ref_counter s idx - 1)\<rparr>
        in if sint (ref_counter s1 idx) \<le> 0 then
             let s2 = memset_page L pa 1 s1;
                 s3 = s2\<lparr>page_next := (page_next s2)(pa := freelist s2)\<rparr>;
                 s4 = s3\<lparr>freelist := pa\<rparr>
             in Inr (s4\<lparr>ref_counter := (ref_counter s4)(idx := 0)\<rparr>)
           else Inr s1)"

text \<open>\<open>kalloc\<close> returns the pointer (0 when the free list is empty) and the new state.\<close>

definition kalloc :: "layout \<Rightarrow> kmem \<Rightarrow> u64 \<times> kmem" where
  "kalloc L s =
     (let r = freelist s;
          s1 = (if r \<noteq> 0 then s\<lparr>freelist := page_next s r\<rparr> else s)
      in if r \<noteq> 0 then
           let idx = PA2IDX L r;
               s2 = memset_page L r 5 s1
           in (r, s2\<lparr>ref_counter := (ref_counter s2)(idx := 1)\<rparr>)
         else (r, s1))"

definition increase_ref_counter :: "layout \<Rightarrow> u64 \<Rightarrow> kmem \<Rightarrow> kmem" where
  "increase_ref_counter L pa s =
     (let idx = PA2IDX L pa
      in s\<lparr>ref_counter := (ref_counter s)(idx := ref_counter s idx + 1)\<rparr>)"

subsection \<open>The free list as a list of pages\<close>

text \<open>
  \<open>freelist_is nx h ps\<close>: following \<open>next\<close> from the head \<open>h\<close> visits exactly the pages
  \<open>ps\<close>, in this order, and then reaches the null pointer.
\<close>

fun freelist_is :: "(u64 \<Rightarrow> u64) \<Rightarrow> u64 \<Rightarrow> u64 list \<Rightarrow> bool" where
  "freelist_is nx h [] = (h = 0)"
| "freelist_is nx h (p # ps) = (h = p \<and> p \<noteq> 0 \<and> freelist_is nx (nx p) ps)"

text \<open>The pages \<open>kfree\<close> accepts: aligned, not below \<open>end\<close>, below \<open>PHYSTOP\<close>.\<close>

definition managed :: "layout \<Rightarrow> u64 \<Rightarrow> bool" where
  "managed L pa = (pa mod PGSIZE L = 0 \<and> kend L \<le> pa \<and> pa < PHYSTOP L)"

definition layout_ok :: "layout \<Rightarrow> bool" where
  "layout_ok L = (PGSIZE L \<noteq> 0 \<and> 0 < KERNBASE L \<and> KERNBASE L \<le> kend L)"

text \<open>
  The allocator's invariant, with the free list made explicit: the free list is the
  null-terminated chain \<open>ps\<close> of managed pages, a managed page whose counter is 0 is on
  it, and a managed page whose counter is positive is not.
\<close>

definition kmem_inv :: "layout \<Rightarrow> kmem \<Rightarrow> u64 list \<Rightarrow> bool" where
  "kmem_inv L s ps =
     (freelist_is (page_next s) (freelist s) ps \<and>
      list_all (managed L) ps \<and>
      (\<forall>p. managed L p \<and> ref_counter s (PA2IDX L p) = 0 \<longrightarrow> p \<in> set ps) \<and>
      (\<forall>p. managed L p \<and> 0 < sint (ref_counter s (PA2IDX L p)) \<longrightarrow> p \<notin> set ps))"

definition xv6_layout :: layout where
  "xv6_layout =
     \<lparr>KERNBASE = 0x80000000, PHYSTOP = 0x88000000, PGSIZE = 4096, kend = 0x80021000,
      PGROUNDUP = (\<lambda>sz. (sz + 4095) AND NOT 4095)\<rparr>"

text \<open>An allocator state with one free page, the last page below \<open>PHYSTOP\<close>.\<close>

definition kmem_one :: kmem where
  "kmem_one =
     \<lparr>freelist = 0x87fff000,
      ref_counter = (\<lambda>i. if i = 0x7fff then 0 else 1),
      page_next = (\<lambda>p. 0),
      page_rest = (\<lambda>p. [])\<rparr>"

text \<open>An exhausted allocator state: no free page, every counter is 1.\<close>

definition kmem_none :: kmem where
  "kmem_none =
     \<lparr>freelist = 0, ref_counter = (\<lambda>i. 1), page_next = (\<lambda>p. 0), page_rest = (\<lambda>p. [])\<rparr>"

text \<open>The allocator at boot: static storage, all zero.\<close>

definition kmem_boot :: kmem where
  "kmem_boot =
     \<lparr>freelist = 0, ref_counter = (\<lambda>i. 0), page_next = (\<lambda>p. 0), page_rest = (\<lambda>p. [])\<rparr>"

text \<open>
  \<open>freerange\<close> and \<open>kinit\<close>. The loop of \<open>freerange\<close> stops when \<open>kfree\<close> panics; for
  parameters with which it would run for ever the result is \<open>None\<close>. \<open>kinit\<close> clears the
  \<open>NUM_OF_PAGE\<close> counters of the array and frees every page from \<open>end\<close> to \<open>PHYSTOP\<close>.
\<close>

partial_function (option) freerange_loop :: "layout \<Rightarrow> u64 \<Rightarrow> u64 \<Rightarrow> kmem \<Rightarrow> (fatal + kmem) option" where
  "freerange_loop L p pa_end s =
     (if p + PGSIZE L \<le> pa_end then
        (case kfree L p s of
           Inl e \<Rightarrow> Some (Inl e)
         | Inr s' \<Rightarrow> freerange_loop L (p + PGSIZE L) pa_end s')
      else Some (Inr s))"

definition freerange :: "layout \<Rightarrow> u64 \<Rightarrow> u64 \<Rightarrow> kmem \<Rightarrow> (fatal + kmem) option" where
  "freerange L pa_start pa_end s = freerange_loop L (PGROUNDUP L pa_start) pa_end s"

definition NUM_OF_PAGE :: "layout \<Rightarrow> u64" where
  "NUM_OF_PAGE L = (PHYSTOP L - KERNBASE L) div PGSIZE L"

definition kinit :: "layout \<Rightarrow> kmem \<Rightarrow> (fatal + kmem) option" where
  "kinit L s =
     freerange L (kend L) (PHYSTOP L)
       (s\<lparr>ref_counter := (\<lambda>i. if i < NUM_OF_PAGE L then 0 else ref_counter s i)\<rparr>)"

text \<open>
  What the seeding needs of the parameters: \<open>PHYSTOP\<close> is page aligned,
  \<open>PGROUNDUP(end)\<close> is the first page boundary not below \<open>end\<close> and is not above
  \<open>PHYSTOP\<close>, and \<open>PHYSTOP + PGSIZE\<close> does not overflow 64 bits.
\<close>

definition seed_ok :: "layout \<Rightarrow> bool" where
  "seed_ok L =
     (PHYSTOP L mod PGSIZE L = 0 \<and>
      PGROUNDUP L (kend L) mod PGSIZE L = 0 \<and> kend L \<le> PGROUNDUP L (kend L) \<and>
      (\<forall>q. q mod PGSIZE L = 0 \<and> kend L \<le> q \<longrightarrow> PGROUNDUP L (kend L) \<le> q) \<and>
      PGROUNDUP L (kend L) \<le> PHYSTOP L \<and>
      unat (PHYSTOP L) + unat (PGSIZE L) < 2 ^ 64)"

section \<open>Buffer cache (kernel/bio.c)\<close>

text \<open>
  \<open>struct buf\<close>. The fields \<open>prev\<close> and \<open>next\<close> are not kept in the record: the
  circular list they form around \<open>bcache.head[i]\<close> is the list \<open>head s i\<close> below.
  \<open>valid\<close> is a C \<open>int\<close>; \<open>refcnt\<close>, \<open>dev\<close>, \<open>blockno\<close> and \<open>lru_timestamp\<close> are
  \<open>uint\<close>. The sleep-lock of a buffer is kept as its holder, the pid of the process that
  has it locked, if any.
\<close>

record buf =
  valid :: int
  dev :: u32
  blockno :: u32
  lock_holder :: "nat option"
  refcnt :: u32
  lru_timestamp :: u32
  data :: "u8 list"

text \<open>
  \<open>bcache\<close>: the array \<open>buf\<close>, indexed by the position of a buffer in it, and for every
  bucket \<open>i\<close> the buffers linked to \<open>head[i]\<close> in the order of \<open>next\<close>, so the first
  element is \<open>head[i].next\<close> (most recently used) and the last is \<open>head[i].prev\<close>.
  The disk behind \<open>virtio_disk_rw\<close> is kept with the cache: the content of every block
  and the number of reads issued so far.
\<close>

record bcache =
  bufs :: "nat \<Rightarrow> buf"
  head :: "nat \<Rightarrow> nat list"
  disk :: "u32 \<times> u32 \<Rightarrow> u8 list"
  disk_reads :: nat

datatype lockid = BcacheLock | HashLock nat

datatype event = Acquire lockid | Release lockid | AcquireSleep nat | ReleaseSleep nat

definition NUM_BUCKET :: nat where
  "NUM_BUCKET = 13"

definition hash_val :: "u32 \<Rightarrow> nat" where
  "hash_val key = unat key mod NUM_BUCKET"

text \<open>
  \<open>binit\<close>: every bucket becomes empty, then the buffers of the array are linked, one
  after the other, in front of the buckets 0, 1, ..., 12, 0, ... . \<open>NBUF\<close> comes from a
  header that is not among the sources, so the indices of the array are a parameter.
\<close>

fun binit_bufs :: "u32 \<Rightarrow> nat list \<Rightarrow> nat \<Rightarrow> bcache \<Rightarrow> bcache" where
  "binit_bufs ticks [] i s = s"
| "binit_bufs ticks (b # bs) i s =
     binit_bufs ticks bs ((i + 1) mod NUM_BUCKET)
       (s\<lparr>head := (head s)(i := b # head s i),
          bufs := (bufs s)(b := (bufs s b)\<lparr>lock_holder := None, lru_timestamp := ticks\<rparr>)\<rparr>)"

definition binit :: "u32 \<Rightarrow> nat \<Rightarrow> bcache \<Rightarrow> bcache" where
  "binit ticks NBUF s = binit_bufs ticks [0..<NBUF] 0 (s\<lparr>head := (\<lambda>i. [])\<rparr>)"

text \<open>The loop of lines 84 and 105: the first buffer of a bucket with the key.\<close>

fun scan_key :: "(nat \<Rightarrow> buf) \<Rightarrow> u32 \<Rightarrow> u32 \<Rightarrow> nat list \<Rightarrow> nat option" where
  "scan_key bf d k [] = None"
| "scan_key bf d k (b # bs) =
     (if dev (bf b) = d \<and> blockno (bf b) = k then Some b else scan_key bf d k bs)"

text \<open>
  The loop of line 120 walks a bucket along \<open>prev\<close>, so it is run on the reversed list:
  the first buffer from the least recently used end whose \<open>refcnt\<close> is 0.
\<close>

fun scan_free :: "(nat \<Rightarrow> buf) \<Rightarrow> nat list \<Rightarrow> nat option" where
  "scan_free bf [] = None"
| "scan_free bf (b # bs) = (if refcnt (bf b) = 0 then Some b else scan_free bf bs)"

text \<open>
  \<open>b->prev->next = b->next; b->next->prev = b->prev\<close> takes the buffer out of the list
  it is on; \<open>link_front\<close> is the four assignments that put it right after \<open>head[h]\<close>.
\<close>

definition unlink :: "nat \<Rightarrow> bcache \<Rightarrow> bcache" where
  "unlink b s = s\<lparr>head := (\<lambda>i. remove1 b (head s i))\<rparr>"

definition link_front :: "nat \<Rightarrow> nat \<Rightarrow> bcache \<Rightarrow> bcache" where
  "link_front h b s = s\<lparr>head := (head s)(h := b # head s h)\<rparr>"

definition buf_upd :: "nat \<Rightarrow> (buf \<Rightarrow> buf) \<Rightarrow> bcache \<Rightarrow> bcache" where
  "buf_upd b f s = s\<lparr>bufs := (bufs s)(b := f (bufs s b))\<rparr>"

text \<open>Lines 86-87 and 107-108: a hit takes a reference and stamps the buffer.\<close>

definition take_ref :: "u32 \<Rightarrow> nat \<Rightarrow> bcache \<Rightarrow> bcache" where
  "take_ref ticks b s =
     buf_upd b (\<lambda>x. x\<lparr>refcnt := refcnt x + 1, lru_timestamp := ticks\<rparr>) s"

text \<open>Lines 122-132: the victim moves to the front of the target bucket and is renamed.\<close>

definition recycle :: "u32 \<Rightarrow> u32 \<Rightarrow> nat \<Rightarrow> nat \<Rightarrow> bcache \<Rightarrow> bcache" where
  "recycle d k h b s =
     buf_upd b (\<lambda>x. x\<lparr>dev := d, blockno := k, valid := 0, refcnt := 1\<rparr>)
       (link_front h b (unlink b s))"

text \<open>
  The loop of lines 117-142 from bucket \<open>i\<close> on. The result is the victim, if one was
  found, the new state, and the lock operations in the order in which they happen.
\<close>

function evict :: "u32 \<Rightarrow> u32 \<Rightarrow> nat \<Rightarrow> nat \<Rightarrow> bcache \<Rightarrow> nat option \<times> bcache \<times> event list" where
  "evict d k h i s =
     (if i < NUM_BUCKET then
        if i = h then evict d k h (i + 1) s
        else
          (case scan_free (bufs s) (rev (head s i)) of
             Some b \<Rightarrow>
               (Some b, recycle d k h b s,
                [Acquire (HashLock i), Release (HashLock h), Release (HashLock i),
                 Release BcacheLock])
           | None \<Rightarrow>
               (case evict d k h (i + 1) s of
                  (r, s', tr) \<Rightarrow> (r, s', Acquire (HashLock i) # Release (HashLock i) # tr)))
      else (None, s, []))"
  by pat_completeness auto
termination
  by (relation "measure (\<lambda>(d, k, h, i, s). NUM_BUCKET - i)") auto

declare evict.simps [simp del]

text \<open>Lines 81-93, the fast path: \<open>Some b\<close> is a hit, \<open>None\<close> a miss.\<close>

definition bget_fast :: "u32 \<Rightarrow> u32 \<Rightarrow> u32 \<Rightarrow> bcache \<Rightarrow> nat option \<times> bcache \<times> event list" where
  "bget_fast ticks d k s =
     (let h = hash_val k in
      case scan_key (bufs s) d k (head s h) of
        Some b \<Rightarrow> (Some b, take_ref ticks b s, [Acquire (HashLock h), Release (HashLock h)])
      | None \<Rightarrow> (None, s, [Acquire (HashLock h), Release (HashLock h)]))"

text \<open>
  Lines 97-144, after a miss on the fast path. \<open>panic\<close> does not return: the result is
  then \<open>Inl\<close>, and the two locks taken in lines 97 and 98 are still held.
\<close>

definition bget_slow :: "u32 \<Rightarrow> u32 \<Rightarrow> u32 \<Rightarrow> bcache \<Rightarrow> (fatal + nat) \<times> bcache \<times> event list" where
  "bget_slow ticks d k s =
     (let h = hash_val k in
      case scan_key (bufs s) d k (head s h) of
        Some b \<Rightarrow>
          (Inr b, take_ref ticks b s,
           [Acquire BcacheLock, Acquire (HashLock h), Release (HashLock h), Release BcacheLock])
      | None \<Rightarrow>
          (case evict d k h 0 s of
             (Some b, s', tr) \<Rightarrow> (Inr b, s', Acquire BcacheLock # Acquire (HashLock h) # tr)
           | (None, s', tr) \<Rightarrow>
               (Inl (Panic ''bget: no buffers''), s',
                Acquire BcacheLock # Acquire (HashLock h) # tr)))"

text \<open>
  \<open>bget\<close> up to the call of \<open>acquiresleep\<close>: the buffer chosen, with its reference
  taken, and every spin-lock released again.
\<close>

definition bget_choose :: "u32 \<Rightarrow> u32 \<Rightarrow> u32 \<Rightarrow> bcache \<Rightarrow> (fatal + nat) \<times> bcache \<times> event list" where
  "bget_choose ticks d k s =
     (case bget_fast ticks d k s of
        (Some b, s', tr) \<Rightarrow> (Inr b, s', tr)
      | (None, s', tr) \<Rightarrow>
          (case bget_slow ticks d k s' of (r, s'', tr') \<Rightarrow> (r, s'', tr @ tr')))"

text \<open>
  Modelled from the spec: the sleep-lock of a buffer (kernel/sleeplock.c is not among the
  sources) is "a blocking mutual-exclusion lock held by exactly one caller":
  \<open>acquiresleep\<close> takes a free lock for the calling process and blocks on a held one,
  \<open>releasesleep\<close> frees it, and \<open>holdingsleep\<close> says whether the caller is the holder.
\<close>

definition holdingsleep :: "nat \<Rightarrow> nat \<Rightarrow> bcache \<Rightarrow> bool" where
  "holdingsleep pid b s = (lock_holder (bufs s b) = Some pid)"

definition acquiresleep :: "nat \<Rightarrow> nat \<Rightarrow> bcache \<Rightarrow> bcache option" where
  "acquiresleep pid b s =
     (if lock_holder (bufs s b) = None then Some (buf_upd b (\<lambda>x. x\<lparr>lock_holder := Some pid\<rparr>) s)
      else None)"

definition releasesleep :: "nat \<Rightarrow> bcache \<Rightarrow> bcache" where
  "releasesleep b s = buf_upd b (\<lambda>x. x\<lparr>lock_holder := None\<rparr>) s"

text \<open>
  What a call of \<open>bget\<close> or \<open>bread\<close> comes to: it returns a locked buffer, it panics,
  or it sleeps in \<open>acquiresleep\<close> because the buffer is locked at this moment. The call
  of \<open>acquiresleep\<close> is the last event of the trace in both of the other cases.
\<close>

datatype outcome = Returned nat | Panicked fatal | Sleeping nat

definition bget :: "nat \<Rightarrow> u32 \<Rightarrow> u32 \<Rightarrow> u32 \<Rightarrow> bcache \<Rightarrow> outcome \<times> bcache \<times> event list" where
  "bget pid ticks d k s =
     (case bget_choose ticks d k s of
        (Inl e, s', tr) \<Rightarrow> (Panicked e, s', tr)
      | (Inr b, s', tr) \<Rightarrow>
          (case acquiresleep pid b s' of
             Some s'' \<Rightarrow> (Returned b, s'', tr @ [AcquireSleep b])
           | None \<Rightarrow> (Sleeping b, s', tr @ [AcquireSleep b])))"

text \<open>
  Modelled from the spec: \<open>virtio_disk_rw\<close> (kernel/virtio_disk.c is not among the
  sources) is the synchronous block service, "read_block fills buffer content" and
  "write_block persists content".
\<close>

definition virtio_disk_rw :: "nat \<Rightarrow> bool \<Rightarrow> bcache \<Rightarrow> bcache" where
  "virtio_disk_rw b write s =
     (let x = bufs s b in
      if write then s\<lparr>disk := (disk s)((dev x, blockno x) := data x)\<rparr>
      else (buf_upd b (\<lambda>x. x\<lparr>data := disk s (dev x, blockno x)\<rparr>) s)
             \<lparr>disk_reads := disk_reads s + 1\<rparr>)"

text \<open>Lines 153-158, once \<open>bget\<close> has returned the buffer.\<close>

definition bread_fill :: "nat \<Rightarrow> bcache \<Rightarrow> bcache" where
  "bread_fill b s =
     (if valid (bufs s b) = 0
      then buf_upd b (\<lambda>x. x\<lparr>valid := 1\<rparr>) (virtio_disk_rw b False s)
      else s)"

definition bread :: "nat \<Rightarrow> u32 \<Rightarrow> u32 \<Rightarrow> u32 \<Rightarrow> bcache \<Rightarrow> outcome \<times> bcache \<times> event list" where
  "bread pid ticks d k s =
     (case bget pid ticks d k s of
        (Returned b, s', tr) \<Rightarrow> (Returned b, bread_fill b s', tr)
      | (r, s', tr) \<Rightarrow> (r, s', tr))"

definition bwrite :: "nat \<Rightarrow> nat \<Rightarrow> bcache \<Rightarrow> fatal + bcache" where
  "bwrite pid b s =
     (if \<not> holdingsleep pid b s then Inl (Panic ''bwrite'')
      else Inr (virtio_disk_rw b True s))"

text \<open>Lines 180-192 of \<open>brelse\<close>, the part that runs with the bucket lock held.\<close>

definition brelse_unref :: "nat \<Rightarrow> bcache \<Rightarrow> bcache" where
  "brelse_unref b s =
     (let hash_idx = hash_val (blockno (bufs s b));
          s2 = buf_upd b (\<lambda>x. x\<lparr>refcnt := refcnt x - 1\<rparr>) s
      in if refcnt (bufs s2 b) = 0 then link_front hash_idx b (unlink b s2) else s2)"

definition brelse :: "nat \<Rightarrow> nat \<Rightarrow> bcache \<Rightarrow> (fatal + bcache) \<times> event list" where
  "brelse pid b s =
     (if \<not> holdingsleep pid b s then (Inl (Panic ''brelse''), [])
      else
        let s1 = releasesleep b s;
            hash_idx = hash_val (blockno (bufs s1 b))
        in (Inr (brelse_unref b s1),
            [ReleaseSleep b, Acquire (HashLock hash_idx), Release (HashLock hash_idx)]))"

definition bpin :: "u32 \<Rightarrow> nat \<Rightarrow> bcache \<Rightarrow> bcache \<times> event list" where
  "bpin ticks b s =
     (let hash_idx = hash_val (blockno (bufs s b))
      in (buf_upd b (\<lambda>x. x\<lparr>refcnt := refcnt x + 1, lru_timestamp := ticks\<rparr>) s,
          [Acquire (HashLock hash_idx), Release (HashLock hash_idx)]))"

definition bunpin :: "nat \<Rightarrow> bcache \<Rightarrow> bcache \<times> event list" where
  "bunpin b s =
     (let hash_idx = hash_val (blockno (bufs s b))
      in (buf_upd b (\<lambda>x. x\<lparr>refcnt := refcnt x - 1\<rparr>) s,
          [Acquire (HashLock hash_idx), Release (HashLock hash_idx)]))"

subsection \<open>Well-formed caches, lock discipline, example states\<close>

text \<open>
  The buckets partition the buffers they hold: no buffer is twice on a list or on two
  lists. This is what the pointers \<open>prev\<close> and \<open>next\<close> of a buffer guarantee in C.
\<close>

definition wf_bcache :: "bcache \<Rightarrow> bool" where
  "wf_bcache s = distinct (concat (map (head s) [0..<NUM_BUCKET]))"

text \<open>The spin-locks held after a sequence of lock operations, starting from \<open>H\<close>.\<close>

fun held_after :: "lockid list \<Rightarrow> event list \<Rightarrow> lockid list" where
  "held_after H [] = H"
| "held_after H (Acquire l # tr) = held_after (l # H) tr"
| "held_after H (Release l # tr) = held_after (remove1 l H) tr"
| "held_after H (_ # tr) = held_after H tr"

text \<open>
  The bucket locks other than the one of bucket \<open>h\<close> among the locks \<open>H\<close>, and the
  discipline that before and after every event of a trace at most one of them is held.
\<close>

definition donors :: "nat \<Rightarrow> lockid list \<Rightarrow> lockid list" where
  "donors h H = filter (\<lambda>l. l \<noteq> BcacheLock \<and> l \<noteq> HashLock h) H"

fun one_donor_from :: "nat \<Rightarrow> lockid list \<Rightarrow> event list \<Rightarrow> bool" where
  "one_donor_from h H [] = (length (donors h H) \<le> 1)"
| "one_donor_from h H (e # tr) =
     (length (donors h H) \<le> 1 \<and> one_donor_from h (held_after H [e]) tr)"

definition one_donor_at_a_time :: "nat \<Rightarrow> event list \<Rightarrow> bool" where
  "one_donor_at_a_time h tr = one_donor_from h [] tr"

text \<open>The lock operations of the scan over the buckets \<open>js\<close> that hold no free buffer.\<close>

definition visits :: "nat \<Rightarrow> nat list \<Rightarrow> event list" where
  "visits h js =
     concat (map (\<lambda>j. [Acquire (HashLock j), Release (HashLock j)]) (filter (\<lambda>j. j \<noteq> h) js))"

text \<open>
  The cache before \<open>binit\<close>: static storage, all zero (no content is kept for the
  data of a buffer that was never read), and an empty disk.
\<close>

definition bcache_zero :: bcache where
  "bcache_zero =
     \<lparr>bufs = (\<lambda>b. \<lparr>valid = 0, dev = 0, blockno = 0, lock_holder = None, refcnt = 0,
                    lru_timestamp = 0, data = []\<rparr>),
      head = (\<lambda>i. []),
      disk = (\<lambda>x. []),
      disk_reads = 0\<rparr>"

text \<open>A cache of two buffers after \<open>binit\<close>, at time 0.\<close>

definition bcache_two :: bcache where
  "bcache_two = binit 0 2 bcache_zero"

text \<open>
  The same cache after process 1 got block 13 of device 0: the buffer 1 was taken
  from bucket 1 and both buffers are now on bucket 0.
\<close>

definition bcache_two_held :: bcache where
  "bcache_two_held = fst (snd (bget 1 1 0 13 bcache_two))"

text \<open>
  Releases in reverse order of acquisition: every \<open>Release\<close> of a trace gives up the
  lock that was taken last among those still held (\<open>H\<close>, most recent first).
\<close>

fun lifo_from :: "lockid list \<Rightarrow> event list \<Rightarrow> bool" where
  "lifo_from H [] = True"
| "lifo_from H (Acquire l # tr) = lifo_from (l # H) tr"
| "lifo_from H (Release l # tr) =
     (case H of [] \<Rightarrow> False | x # H' \<Rightarrow> x = l \<and> lifo_from H' tr)"
| "lifo_from H (_ # tr) = lifo_from H tr"

definition reverse_order_releases :: "event list \<Rightarrow> bool" where
  "reverse_order_releases tr = lifo_from [] tr"

text \<open>The cache with the timestamp of every buffer \<open>b\<close> replaced by \<open>g b\<close>.\<close>

definition stamp :: "(nat \<Rightarrow> u32) \<Rightarrow> bcache \<Rightarrow> bcache" where
  "stamp g s = s\<lparr>bufs := (\<lambda>b. (bufs s b)\<lparr>lru_timestamp := g b\<rparr>)\<rparr>"

text \<open>
  The cache of two buffers after this history of process 1: it gets block 2 (buffer 0)
  at time 1 and block 15 (buffer 1) at time 2, pins buffer 1 at time 5 and unpins it,
  and releases buffer 1, then buffer 0.
\<close>

definition bcache_two_aged :: bcache where
  "bcache_two_aged =
     (let s1 = fst (snd (bget 1 1 0 2 bcache_two));
          s2 = fst (snd (bget 1 2 0 15 s1));
          s3 = fst (bpin 5 1 s2);
          s4 = fst (bunpin 1 s3);
          s5 = (case fst (brelse 1 1 s4) of Inr s \<Rightarrow> s | Inl e \<Rightarrow> s4);
          s6 = (case fst (brelse 1 0 s5) of Inr s \<Rightarrow> s | Inl e \<Rightarrow> s5)
      in s6)"

text \<open>
  The cache of two buffers while process 1 holds both: buffer 0 with block 2 and buffer
  1 with block 15, both on bucket 2, buffer 1 in front.
\<close>

definition bcache_two_busy :: bcache where
  "bcache_two_busy = fst (snd (bget 1 2 0 15 (fst (snd (bget 1 1 0 2 bcache_two)))))"

subsection \<open>Processes that read the same block\<close>

text \<open>
  Several processes run \<open>b = bread(d, k); brelse(b)\<close> for one key. A process is at one
  of these points: before \<open>bget\<close>; after the miss of the fast path (line 93); in
  \<open>acquiresleep\<close> on the buffer it was given (lines 89, 111, 137); holding the
  sleep-lock, before line 154 of \<open>bread\<close>; back from \<open>bread\<close>; in \<open>brelse\<close> after
  \<open>releasesleep\<close> (line 178); finished; or stopped in \<open>panic\<close>.
\<close>

datatype pc =
  Start | Missed | WaitSleep nat | Holding nat | Using nat | Releasing nat | Done nat | Dead

text \<open>
  One step of process \<open>t\<close>, whose pid is \<open>t\<close>, for the key \<open>(d, k)\<close>; \<open>None\<close> when the
  process cannot move (it sleeps on a held lock, or it is finished). A step is a piece
  of code that runs under the same locks from its first to its last access to the
  cache: the fast path under the lock of the target bucket, lines 97-136 under the
  global lock and the lock of the target bucket, lines 154-157 under the sleep-lock
  of the buffer, and lines 180-192 under the lock of the bucket of the buffer. When
  every process works on the same key, all of them contend for the same bucket lock,
  which the slow path holds from line 98 to line 134, so the steps exclude each other.
\<close>

definition thread_step :: "u32 \<Rightarrow> u32 \<Rightarrow> u32 \<Rightarrow> nat \<Rightarrow> pc \<Rightarrow> bcache \<Rightarrow> (pc \<times> bcache) option" where
  "thread_step d k ticks t p s =
     (case p of
        Start \<Rightarrow>
          (case bget_fast ticks d k s of
             (Some b, s', tr) \<Rightarrow> Some (WaitSleep b, s')
           | (None, s', tr) \<Rightarrow> Some (Missed, s'))
      | Missed \<Rightarrow>
          (case bget_slow ticks d k s of
             (Inr b, s', tr) \<Rightarrow> Some (WaitSleep b, s')
           | (Inl e, s', tr) \<Rightarrow> Some (Dead, s'))
      | WaitSleep b \<Rightarrow>
          (case acquiresleep t b s of
             Some s' \<Rightarrow> Some (Holding b, s')
           | None \<Rightarrow> None)
      | Holding b \<Rightarrow> Some (Using b, bread_fill b s)
      | Using b \<Rightarrow>
          (if holdingsleep t b s then Some (Releasing b, releasesleep b s) else Some (Dead, s))
      | Releasing b \<Rightarrow> Some (Done b, brelse_unref b s)
      | Done b \<Rightarrow> None
      | Dead \<Rightarrow> None)"

text \<open>
  A schedule names, step by step, the process that runs and the value of \<open>ticks\<close> it
  reads; process \<open>t\<close> works on the key \<open>keys t\<close>. A process that cannot move when it
  is scheduled stays where it is. Every schedule is an execution of the code, the one
  in which each piece runs to its end before the next one starts. With processes on
  different keys there are executions that are no schedule (the scan of lines 117-142
  can overlap with a step on another bucket); the runs below that use several keys are
  single executions, followed step by step.
\<close>

fun exec :: "(nat \<Rightarrow> u32 \<times> u32) \<Rightarrow> (nat \<times> u32) list \<Rightarrow> bcache \<times> pc list \<Rightarrow> bcache \<times> pc list" where
  "exec keys [] c = c"
| "exec keys ((t, ticks) # sch) (s, pcs) =
     (if t < length pcs then
        (case thread_step (fst (keys t)) (snd (keys t)) ticks t (pcs ! t) s of
           Some (p', s') \<Rightarrow> exec keys sch (s', pcs[t := p'])
         | None \<Rightarrow> exec keys sch (s, pcs))
      else exec keys sch (s, pcs))"

text \<open>The buffer a process has been given by \<open>bget\<close>, and whether it is back from \<open>bread\<close>.\<close>

fun given :: "pc \<Rightarrow> nat option" where
  "given (WaitSleep b) = Some b"
| "given (Holding b) = Some b"
| "given (Using b) = Some b"
| "given (Releasing b) = Some b"
| "given (Done b) = Some b"
| "given _ = None"

fun returned :: "pc \<Rightarrow> bool" where
  "returned (Using b) = True"
| "returned (Releasing b) = True"
| "returned (Done b) = True"
| "returned _ = False"

fun locking :: "pc \<Rightarrow> bool" where
  "locking (Holding b) = True"
| "locking (Using b) = True"
| "locking _ = False"

fun finished :: "pc \<Rightarrow> bool" where
  "finished (Done b) = True"
| "finished _ = False"

definition can_step :: "u32 \<Rightarrow> u32 \<Rightarrow> bcache \<times> pc list \<Rightarrow> nat \<Rightarrow> bool" where
  "can_step d k c t =
     (t < length (snd c) \<and> thread_step d k 0 t (snd c ! t) (fst c) \<noteq> None)"

text \<open>
  What holds of the processes before any of them has brought the block in: the cache
  is still the initial one and every process is before its slow path, or has found no
  victim there.
\<close>

definition no_victim :: "nat \<Rightarrow> bcache \<Rightarrow> bool" where
  "no_victim h s =
     (\<forall>m. m < NUM_BUCKET \<and> m \<noteq> h \<longrightarrow> scan_free (bufs s) (rev (head s m)) = None)"

definition before_load :: "u32 \<Rightarrow> bcache \<Rightarrow> bcache \<times> pc list \<Rightarrow> bool" where
  "before_load k s0 c =
     (fst c = s0 \<and>
      (\<forall>t<length (snd c). snd c ! t = Start \<or> snd c ! t = Missed \<or>
         (snd c ! t = Dead \<and> no_victim (hash_val k) s0)))"

text \<open>
  What holds once buffer \<open>b\<close> has been recycled for the key: it is the buffer the scans
  find; a process is before \<open>bget\<close>, after its fast path, or was given \<open>b\<close>; the
  sleep-lock of \<open>b\<close> is held by exactly the process between \<open>acquiresleep\<close> and
  \<open>releasesleep\<close>, if there is one; and either \<open>b\<close> is not valid, nothing was read and
  no process is back from \<open>bread\<close>, or \<open>b\<close> is valid and one block was read.
\<close>

definition after_load :: "u32 \<Rightarrow> u32 \<Rightarrow> bcache \<Rightarrow> nat \<Rightarrow> bcache \<times> pc list \<Rightarrow> bool" where
  "after_load d k s0 b c =
     (scan_key (bufs (fst c)) d k (head (fst c) (hash_val k)) = Some b \<and>
      (\<forall>t<length (snd c). snd c ! t = Start \<or> snd c ! t = Missed \<or> given (snd c ! t) = Some b) \<and>
      (\<forall>t<length (snd c). locking (snd c ! t) \<longleftrightarrow> lock_holder (bufs (fst c) b) = Some t) \<and>
      (lock_holder (bufs (fst c) b) = None \<or>
       (\<exists>t<length (snd c). lock_holder (bufs (fst c) b) = Some t)) \<and>
      ((valid (bufs (fst c) b) = 0 \<and> disk_reads (fst c) = disk_reads s0 \<and>
        (\<forall>t<length (snd c). \<not> returned (snd c ! t))) \<or>
       (valid (bufs (fst c) b) = 1 \<and> disk_reads (fst c) = disk_reads s0 + 1)))"

definition load_inv :: "u32 \<Rightarrow> u32 \<Rightarrow> bcache \<Rightarrow> bcache \<times> pc list \<Rightarrow> bool" where
  "load_inv d k s0 c = (before_load k s0 c \<or> (\<exists>b. after_load d k s0 b c))"

text \<open>A bound on the number of steps a process still takes.\<close>

fun remaining :: "pc \<Rightarrow> nat" where
  "remaining Start = 6"
| "remaining Missed = 5"
| "remaining (WaitSleep b) = 4"
| "remaining (Holding b) = 3"
| "remaining (Using b) = 2"
| "remaining (Releasing b) = 1"
| "remaining (Done b) = 0"
| "remaining Dead = 0"

text \<open>
  A schedule of two processes: both miss on the fast path, process 0 recycles a
  buffer, process 1 finds it on the re-scan, locks it first and reads the block, and
  process 0 gets the lock once process 1 has released it.
\<close>

definition two_readers :: "(nat \<times> u32) list" where
  "two_readers =
     [(0, 1), (1, 1), (0, 2), (1, 3), (1, 4), (0, 5), (1, 6), (1, 7), (0, 8), (0, 9),
      (1, 10), (0, 11), (0, 12)]"

text \<open>
  Three processes: 0 and 1 read block 2 of device 0, process 2 reads block 1. In the
  schedule, 0 and 1 both miss on the fast path; 0 recycles a buffer, reads the block
  and releases the buffer; 2 misses twice and recycles that buffer for block 1; then 1
  runs its slow path, locks the buffer it is given and returns from \<open>bread\<close>.
\<close>

definition other_reader :: "nat \<Rightarrow> u32 \<times> u32" where
  "other_reader t = (if t = 2 then (0, 1) else (0, 2))"

definition evicted_between :: "(nat \<times> u32) list" where
  "evicted_between =
     [(0, 1), (1, 1), (0, 2), (0, 3), (0, 4), (0, 5), (0, 6), (2, 7), (2, 8),
      (1, 9), (1, 10), (1, 11)]"

section \<open>Properties of the allocator\<close>

subsection \<open>The free list\<close>

lemma freelist_is_unique:
  "freelist_is nx h ps \<Longrightarrow> freelist_is nx h qs \<Longrightarrow> ps = qs"
proof (induction ps arbitrary: h qs)
  case Nil
  then show ?case by (cases qs) auto
next
  case (Cons p ps)
  then show ?case by (cases qs) auto
qed

lemma freelist_is_suffix:
  "freelist_is nx h (as @ p # bs) \<Longrightarrow> freelist_is nx (nx p) bs"
  by (induction as arbitrary: h) auto

text \<open>A chain that ends at the null pointer visits no page twice.\<close>

lemma freelist_is_distinct:
  "freelist_is nx h ps \<Longrightarrow> distinct ps"
proof (induction ps arbitrary: h)
  case Nil
  then show ?case by simp
next
  case (Cons p ps)
  have tl: "freelist_is nx (nx p) ps" using Cons.prems by simp
  have "p \<notin> set ps"
  proof
    assume "p \<in> set ps"
    then obtain as bs where split: "ps = as @ p # bs"
      by (auto simp: in_set_conv_decomp)
    with tl have "freelist_is nx (nx p) bs"
      using freelist_is_suffix by blast
    with tl have "ps = bs" by (rule freelist_is_unique)
    with split show False by simp
  qed
  with Cons.IH [OF tl] show ?case by simp
qed

lemma freelist_is_upd:
  "freelist_is nx h ps \<Longrightarrow> p \<notin> set ps \<Longrightarrow> freelist_is (nx(p := v)) h ps"
  by (induction ps arbitrary: h) auto

subsection \<open>Page indices\<close>

lemma nat_page_index_inj_aux:
  fixes a b k n :: nat
  assumes "a mod n = 0" "b mod n = 0" "k \<le> a" "a < b" 
  shows "(a - k) div n < (b - k) div n"
proof -
  have npos: "0 < n" using assms by (cases "n = 0") auto
  have "n dvd b - a" using assms by (simp add: dvd_diff_nat mod_eq_0_iff_dvd)
  then have "n \<le> b - a" using assms by (simp add: dvd_imp_le)
  then have "(a - k) + n \<le> b - k" using assms by simp
  then have "((a - k) + n) div n \<le> (b - k) div n" by (rule div_le_mono)
  moreover have "((a - k) + n) div n = (a - k) div n + 1"
    using npos div_add_self2 [of n "a - k"] by simp
  ultimately show ?thesis by linarith
qed

lemma nat_page_index_inj:
  fixes a b k n :: nat
  assumes "a mod n = 0" "b mod n = 0" "k \<le> a" "k \<le> b" "(a - k) div n = (b - k) div n"
  shows "a = b"
proof (rule ccontr)
  assume "a \<noteq> b"
  then consider "a < b" | "b < a" by linarith
  then show False
  proof cases
    case 1
    from nat_page_index_inj_aux [OF assms(1,2,3) 1] assms(5) show False by simp
  next
    case 2
    from nat_page_index_inj_aux [OF assms(2,1,4) 2] assms(5) show False by simp
  qed
qed

lemma PA2IDX_inj:
  assumes ok: "layout_ok L" and p: "managed L p" and q: "managed L q"
    and eq: "PA2IDX L p = PA2IDX L q"
  shows "p = q"
proof -
  have kp: "KERNBASE L \<le> p" and kq: "KERNBASE L \<le> q"
    using ok p q by (auto simp: layout_ok_def managed_def)
  have mp: "unat p mod unat (PGSIZE L) = 0" and mq: "unat q mod unat (PGSIZE L) = 0"
    using p q by (simp_all add: managed_def unat_mod [symmetric] unat_eq_0)
  have kp': "unat (KERNBASE L) \<le> unat p" and kq': "unat (KERNBASE L) \<le> unat q"
    using kp kq by (simp_all add: word_le_nat_alt)
  have "unat (PA2IDX L p) = unat (PA2IDX L q)" using eq by simp
  then have d: "(unat p - unat (KERNBASE L)) div unat (PGSIZE L)
           = (unat q - unat (KERNBASE L)) div unat (PGSIZE L)"
    using kp kq by (simp add: PA2IDX_def unat_div unat_sub)
  from mp mq kp' kq' d have "unat p = unat q" by (rule nat_page_index_inj)
  then show ?thesis by (simp add: word_unat_eq_iff)
qed

lemma sint_pred_pos:
  fixes x :: u32
  assumes "0 < sint x"
  shows "sint (x - 1) = sint x - 1"
proof -
  have "sint x < 2 ^ 31" using sint_lt [of x] by simp
  then show ?thesis using assms
    by (simp add: sint_word_ariths signed_take_bit_int_eq_self)
qed

lemma sint_pred_le0:
  fixes x :: u32
  assumes "0 < sint x" "sint (x - 1) \<le> 0"
  shows "x = 1"
proof -
  have "sint x = 1" using assms sint_pred_pos [of x] by simp
  then have "sint x = sint (1 :: u32)" by simp
  then show ?thesis by (rule signed_word_eqI)
qed

lemma managed_nonnull: "layout_ok L \<Longrightarrow> managed L pa \<Longrightarrow> pa \<noteq> 0"
  by (auto simp: layout_ok_def managed_def)

lemma kalloc_nonnull:
  "freelist s \<noteq> 0 \<Longrightarrow>
   kalloc L s =
     (freelist s,
      s\<lparr>freelist := page_next s (freelist s),
        page_next := (page_next s)(freelist s := rep8 5),
        page_rest := (page_rest s)(freelist s := replicate (unat (PGSIZE L) - 8) 5),
        ref_counter := (ref_counter s)(PA2IDX L (freelist s) := 1)\<rparr>)"
  by (simp add: kalloc_def memset_page_def Let_def)

lemma kalloc_null: "freelist s = 0 \<Longrightarrow> kalloc L s = (0, s)"
  by (simp add: kalloc_def)

lemma kfree_push:
  "managed L pa \<Longrightarrow> sint (ref_counter s (PA2IDX L pa) - 1) \<le> 0 \<Longrightarrow>
   kfree L pa s =
     Inr (s\<lparr>ref_counter := (ref_counter s)(PA2IDX L pa := 0),
            page_next := (page_next s)(pa := freelist s),
            page_rest := (page_rest s)(pa := replicate (unat (PGSIZE L) - 8) 1),
            freelist := pa\<rparr>)"
  by (simp add: kfree_def managed_def memset_page_def Let_def not_le not_less)

lemma kfree_keep:
  "managed L pa \<Longrightarrow> \<not> sint (ref_counter s (PA2IDX L pa) - 1) \<le> 0 \<Longrightarrow>
   kfree L pa s =
     Inr (s\<lparr>ref_counter := (ref_counter s)(PA2IDX L pa := ref_counter s (PA2IDX L pa) - 1)\<rparr>)"
  by (simp add: kfree_def managed_def memset_page_def Let_def not_le not_less)

lemma kmem_inv_pop:
  assumes ok: "layout_ok L" and inv: "kmem_inv L s (p # ps)"
  shows "kmem_inv L
           (s\<lparr>freelist := page_next s p,
              page_next := (page_next s)(p := v),
              page_rest := r,
              ref_counter := (ref_counter s)(PA2IDX L p := 1)\<rparr>) ps"
proof -
  have fl: "freelist_is (page_next s) (freelist s) (p # ps)"
    and mg: "list_all (managed L) (p # ps)"
    and zero: "\<And>q. managed L q \<Longrightarrow> ref_counter s (PA2IDX L q) = 0 \<Longrightarrow> q \<in> set (p # ps)"
    and pos: "\<And>q. managed L q \<Longrightarrow> 0 < sint (ref_counter s (PA2IDX L q)) \<Longrightarrow> q \<notin> set (p # ps)"
    using inv unfolding kmem_inv_def by blast+
  have dist: "p \<notin> set ps" using freelist_is_distinct [OF fl] by simp
  have mp: "managed L p" using mg by simp
  have idx: "\<And>q. managed L q \<Longrightarrow> q \<noteq> p \<Longrightarrow> PA2IDX L q \<noteq> PA2IDX L p"
    using PA2IDX_inj [OF ok _ mp] by blast
  have "freelist_is ((page_next s)(p := v)) (page_next s p) ps"
    using fl dist by (simp add: freelist_is_upd)
  moreover have "list_all (managed L) ps" using mg by simp
  moreover have "\<And>q. managed L q \<Longrightarrow> ((ref_counter s)(PA2IDX L p := 1)) (PA2IDX L q) = 0 \<Longrightarrow> q \<in> set ps"
    using zero idx by (case_tac "q = p") auto
  moreover have "\<And>q. managed L q \<Longrightarrow> 0 < sint (((ref_counter s)(PA2IDX L p := 1)) (PA2IDX L q)) \<Longrightarrow> q \<notin> set ps"
    using pos idx dist by (case_tac "q = p") auto
  ultimately show ?thesis unfolding kmem_inv_def by simp
qed

lemma kmem_inv_push:
  assumes ok: "layout_ok L" and inv: "kmem_inv L s ps" and mp: "managed L p"
    and notin: "p \<notin> set ps"
  shows "kmem_inv L
           (s\<lparr>ref_counter := (ref_counter s)(PA2IDX L p := 0),
              page_next := (page_next s)(p := freelist s),
              page_rest := r,
              freelist := p\<rparr>) (p # ps)"
proof -
  have fl: "freelist_is (page_next s) (freelist s) ps"
    and mg: "list_all (managed L) ps"
    and zero: "\<And>q. managed L q \<Longrightarrow> ref_counter s (PA2IDX L q) = 0 \<Longrightarrow> q \<in> set ps"
    and pos: "\<And>q. managed L q \<Longrightarrow> 0 < sint (ref_counter s (PA2IDX L q)) \<Longrightarrow> q \<notin> set ps"
    using inv unfolding kmem_inv_def by blast+
  have idx: "\<And>q. managed L q \<Longrightarrow> q \<noteq> p \<Longrightarrow> PA2IDX L q \<noteq> PA2IDX L p"
    using PA2IDX_inj [OF ok _ mp] by blast
  have "freelist_is ((page_next s)(p := freelist s)) p (p # ps)"
    using fl notin managed_nonnull [OF ok mp] by (simp add: freelist_is_upd)
  moreover have "list_all (managed L) (p # ps)" using mg mp by simp
  moreover have "\<And>q. managed L q \<Longrightarrow> ((ref_counter s)(PA2IDX L p := 0)) (PA2IDX L q) = 0 \<Longrightarrow> q \<in> set (p # ps)"
    using zero idx by (case_tac "q = p") auto
  moreover have "\<And>q. managed L q \<Longrightarrow> 0 < sint (((ref_counter s)(PA2IDX L p := 0)) (PA2IDX L q)) \<Longrightarrow> q \<notin> set (p # ps)"
    using pos idx by (case_tac "q = p") auto
  ultimately show ?thesis unfolding kmem_inv_def by simp
qed

lemma kmem_inv_ref_upd:
  assumes ok: "layout_ok L" and inv: "kmem_inv L s ps" and mp: "managed L p"
    and notin: "p \<notin> set ps" and v: "v \<noteq> 0"
  shows "kmem_inv L (s\<lparr>ref_counter := (ref_counter s)(PA2IDX L p := v)\<rparr>) ps"
proof -
  have fl: "freelist_is (page_next s) (freelist s) ps"
    and mg: "list_all (managed L) ps"
    and zero: "\<And>q. managed L q \<Longrightarrow> ref_counter s (PA2IDX L q) = 0 \<Longrightarrow> q \<in> set ps"
    and pos: "\<And>q. managed L q \<Longrightarrow> 0 < sint (ref_counter s (PA2IDX L q)) \<Longrightarrow> q \<notin> set ps"
    using inv unfolding kmem_inv_def by blast+
  have idx: "\<And>q. managed L q \<Longrightarrow> q \<noteq> p \<Longrightarrow> PA2IDX L q \<noteq> PA2IDX L p"
    using PA2IDX_inj [OF ok _ mp] by blast
  have "\<And>q. managed L q \<Longrightarrow> ((ref_counter s)(PA2IDX L p := v)) (PA2IDX L q) = 0 \<Longrightarrow> q \<in> set ps"
    using zero idx v by (case_tac "q = p") auto
  moreover have "\<And>q. managed L q \<Longrightarrow> 0 < sint (((ref_counter s)(PA2IDX L p := v)) (PA2IDX L q)) \<Longrightarrow> q \<notin> set ps"
    using pos idx notin by (case_tac "q = p") auto
  ultimately show ?thesis using fl mg unfolding kmem_inv_def by simp
qed

lemma sint_succ_nonzero:
  fixes x :: u32
  assumes "0 < sint x"
  shows "x + 1 \<noteq> 0"
proof
  assume "x + 1 = 0"
  then have "x = - 1" by (simp add: add_eq_0_iff2)
  then have "sint x = - 1" by simp
  with assms show False by simp
qed

lemma kmem_inv_freelist: "kmem_inv L s ps \<Longrightarrow> freelist_is (page_next s) (freelist s) ps"
  by (simp add: kmem_inv_def)

lemma kmem_inv_head: "kmem_inv L s ps \<Longrightarrow> freelist s \<noteq> 0 \<Longrightarrow> \<exists>qs. ps = freelist s # qs"
  by (cases ps) (auto simp: kmem_inv_def)

lemma kmem_inv_empty: "kmem_inv L s ps \<Longrightarrow> freelist s = 0 \<Longrightarrow> ps = []"
proof -
  assume "kmem_inv L s ps" and z: "freelist s = 0"
  then have "freelist_is (page_next s) 0 ps" by (simp add: kmem_inv_def)
  then show "ps = []" by (cases ps) simp_all
qed

lemma kmem_inv_managed: "kmem_inv L s ps \<Longrightarrow> p \<in> set ps \<Longrightarrow> managed L p"
  unfolding kmem_inv_def list_all_iff by blast

lemma kmem_inv_pos_notin:
  "kmem_inv L s ps \<Longrightarrow> managed L p \<Longrightarrow> 0 < sint (ref_counter s (PA2IDX L p)) \<Longrightarrow> p \<notin> set ps"
  unfolding kmem_inv_def by blast

lemma kalloc_inv:
  assumes ok: "layout_ok L" and inv: "kmem_inv L s ps" and nz: "freelist s \<noteq> 0"
  shows "kmem_inv L (snd (kalloc L s)) (tl ps)"
proof -
  obtain qs where ps: "ps = freelist s # qs" using kmem_inv_head [OF inv nz] by blast
  then have "kmem_inv L s (freelist s # qs)" using inv by simp
  from kmem_inv_pop [OF ok this] show ?thesis
    by (simp add: kalloc_nonnull [OF nz] ps)
qed

lemma kfree_inv_last:
  assumes ok: "layout_ok L" and inv: "kmem_inv L s ps" and mp: "managed L pa"
    and notin: "pa \<notin> set ps" and one: "ref_counter s (PA2IDX L pa) = 1"
  shows "\<exists>s'. kfree L pa s = Inr s' \<and> kmem_inv L s' (pa # ps) \<and> freelist s' = pa
           \<and> ref_counter s' (PA2IDX L pa) = 0"
proof -
  have le: "sint (ref_counter s (PA2IDX L pa) - 1) \<le> 0" using one by simp
  show ?thesis
    using kmem_inv_push [OF ok inv mp notin] by (simp add: kfree_push [OF mp le])
qed

lemma kfree_inv_shared:
  assumes ok: "layout_ok L" and inv: "kmem_inv L s ps" and mp: "managed L pa"
    and notin: "pa \<notin> set ps" and more: "\<not> sint (ref_counter s (PA2IDX L pa) - 1) \<le> 0"
  shows "\<exists>s'. kfree L pa s = Inr s' \<and> kmem_inv L s' ps \<and> freelist s' = freelist s
           \<and> page_next s' = page_next s
           \<and> ref_counter s' (PA2IDX L pa) = ref_counter s (PA2IDX L pa) - 1"
proof -
  have nz: "ref_counter s (PA2IDX L pa) - 1 \<noteq> 0" using more by auto
  show ?thesis
    using kmem_inv_ref_upd [OF ok inv mp notin nz] by (simp add: kfree_keep [OF mp more])
qed

subsection \<open>The invariant is preserved\<close>

text \<open>
  Claim C4. From a state that satisfies the allocator's invariant, with free list \<open>ps\<close>:
  \<^item> \<open>kalloc\<close> either finds the list empty and changes nothing, or returns its head,
    which occurs nowhere else in the list, leaves the invariant with the rest of the list
    and sets the counter of the page to 1;
  \<^item> \<open>kfree\<close> of an allocated page (counter positive) does not panic, decrements the
    counter, and pushes the page onto the free list exactly when the counter reaches 0;
    otherwise the free list and its links are untouched; the invariant holds afterwards;
  \<^item> \<open>increase_ref_counter\<close> on an allocated page leaves the free list and its links
    untouched and keeps the invariant.
\<close>

theorem allocator_invariant_preserved:
  assumes ok: "layout_ok L" and inv: "kmem_inv L s ps"
  shows
   "(case kalloc L s of (r, s') \<Rightarrow>
       if r = 0 then ps = [] \<and> s' = s
       else ps = r # tl ps \<and> r \<notin> set (tl ps) \<and> kmem_inv L s' (tl ps) \<and>
            ref_counter s' (PA2IDX L r) = 1) \<and>
    (\<forall>pa. managed L pa \<and> 0 < sint (ref_counter s (PA2IDX L pa)) \<longrightarrow>
       (\<exists>s'. kfree L pa s = Inr s' \<and>
          ref_counter s' (PA2IDX L pa) = ref_counter s (PA2IDX L pa) - 1 \<and>
          (if ref_counter s' (PA2IDX L pa) = 0 then kmem_inv L s' (pa # ps)
           else kmem_inv L s' ps \<and> freelist s' = freelist s \<and> page_next s' = page_next s))) \<and>
    (\<forall>pa. managed L pa \<and> 0 < sint (ref_counter s (PA2IDX L pa)) \<longrightarrow>
       (let s' = increase_ref_counter L pa s
        in kmem_inv L s' ps \<and> freelist s' = freelist s \<and> page_next s' = page_next s))"
proof (intro conjI allI impI)
  show "case kalloc L s of (r, s') \<Rightarrow>
       if r = 0 then ps = [] \<and> s' = s
       else ps = r # tl ps \<and> r \<notin> set (tl ps) \<and> kmem_inv L s' (tl ps) \<and>
            ref_counter s' (PA2IDX L r) = 1"
  proof (cases "freelist s = 0")
    case True
    then show ?thesis using kmem_inv_empty [OF inv] by (simp add: kalloc_null)
  next
    case False
    obtain qs where ps: "ps = freelist s # qs" using kmem_inv_head [OF inv False] by blast
    have "distinct ps" using inv freelist_is_distinct kmem_inv_freelist by blast
    then have "freelist s \<notin> set qs" using ps by simp
    moreover have "kmem_inv L (snd (kalloc L s)) (tl ps)" using ok inv False by (rule kalloc_inv)
    ultimately show ?thesis using False by (simp add: kalloc_nonnull [OF False] ps)
  qed
next
  fix pa
  assume h: "managed L pa \<and> 0 < sint (ref_counter s (PA2IDX L pa))"
  then have mp: "managed L pa" and pos: "0 < sint (ref_counter s (PA2IDX L pa))" by simp_all
  have notin: "pa \<notin> set ps" using inv mp pos by (rule kmem_inv_pos_notin)
  show "\<exists>s'. kfree L pa s = Inr s' \<and>
          ref_counter s' (PA2IDX L pa) = ref_counter s (PA2IDX L pa) - 1 \<and>
          (if ref_counter s' (PA2IDX L pa) = 0 then kmem_inv L s' (pa # ps)
           else kmem_inv L s' ps \<and> freelist s' = freelist s \<and> page_next s' = page_next s)"
  proof (cases "sint (ref_counter s (PA2IDX L pa) - 1) \<le> 0")
    case True
    with pos have one: "ref_counter s (PA2IDX L pa) = 1" by (rule sint_pred_le0)
    from kfree_inv_last [OF ok inv mp notin one] obtain s' where
      "kfree L pa s = Inr s'" "kmem_inv L s' (pa # ps)" "ref_counter s' (PA2IDX L pa) = 0"
      by blast
    then show ?thesis using one by (intro exI [of _ s']) simp
  next
    case False
    then have nz: "ref_counter s (PA2IDX L pa) - 1 \<noteq> 0" by auto
    from kfree_inv_shared [OF ok inv mp notin False] obtain s' where
      "kfree L pa s = Inr s'" "kmem_inv L s' ps" "freelist s' = freelist s"
      "page_next s' = page_next s"
      "ref_counter s' (PA2IDX L pa) = ref_counter s (PA2IDX L pa) - 1"
      by blast
    then show ?thesis using nz by (intro exI [of _ s']) simp
  qed
next
  fix pa
  assume h: "managed L pa \<and> 0 < sint (ref_counter s (PA2IDX L pa))"
  then have mp: "managed L pa" and pos: "0 < sint (ref_counter s (PA2IDX L pa))" by simp_all
  have notin: "pa \<notin> set ps" using inv mp pos by (rule kmem_inv_pos_notin)
  have nz: "ref_counter s (PA2IDX L pa) + 1 \<noteq> 0" using pos by (rule sint_succ_nonzero)
  show "let s' = increase_ref_counter L pa s
        in kmem_inv L s' ps \<and> freelist s' = freelist s \<and> page_next s' = page_next s"
    using kmem_inv_ref_upd [OF ok inv mp notin nz]
    by (simp add: increase_ref_counter_def Let_def)
qed

lemma layout_ok_xv6: "layout_ok xv6_layout"
  by (simp add: layout_ok_def xv6_layout_def)

lemma managed_xv6_top: "managed xv6_layout 0x87fff000"
  by (simp add: managed_def xv6_layout_def)

lemma PA2IDX_xv6_top: "PA2IDX xv6_layout 0x87fff000 = 0x7fff"
  by (simp add: PA2IDX_def xv6_layout_def)

lemma kmem_inv_one: "kmem_inv xv6_layout kmem_one [0x87fff000]"
  unfolding kmem_inv_def
proof (intro conjI allI impI)
  show "freelist_is (page_next kmem_one) (freelist kmem_one) [0x87fff000]"
    by (simp add: kmem_one_def)
  show "list_all (managed xv6_layout) [0x87fff000]"
    by (simp add: managed_xv6_top)
next
  fix p
  assume h: "managed xv6_layout p \<and> ref_counter kmem_one (PA2IDX xv6_layout p) = 0"
  then have "PA2IDX xv6_layout p = 0x7fff"
    by (simp add: kmem_one_def split: if_splits)
  then have "PA2IDX xv6_layout p = PA2IDX xv6_layout 0x87fff000"
    by (simp only: PA2IDX_xv6_top)
  with h have "p = 0x87fff000"
    using PA2IDX_inj [OF layout_ok_xv6 _ managed_xv6_top] by blast
  then show "p \<in> set [0x87fff000]" by simp
next
  fix p
  assume h: "managed xv6_layout p \<and> 0 < sint (ref_counter kmem_one (PA2IDX xv6_layout p))"
  show "p \<notin> set [0x87fff000]"
  proof
    assume "p \<in> set [0x87fff000]"
    then have "p = 0x87fff000" by simp
    then have "ref_counter kmem_one (PA2IDX xv6_layout p) = 0"
      by (simp only: PA2IDX_xv6_top) (simp add: kmem_one_def)
    with h show False by simp
  qed
qed

theorem allocator_invariant_preserved_witness:
  "layout_ok xv6_layout \<and> kmem_inv xv6_layout kmem_one [0x87fff000] \<and>
   fst (kalloc xv6_layout kmem_one) = 0x87fff000 \<and>
   kmem_inv xv6_layout (snd (kalloc xv6_layout kmem_one)) [] \<and>
   managed xv6_layout 0x87ffe000 \<and>
   0 < sint (ref_counter kmem_one (PA2IDX xv6_layout 0x87ffe000)) \<and>
   (\<exists>s'. kfree xv6_layout 0x87ffe000 kmem_one = Inr s' \<and>
      kmem_inv xv6_layout s' [0x87ffe000, 0x87fff000]) \<and>
   kmem_inv xv6_layout (increase_ref_counter xv6_layout 0x87ffe000 kmem_one) [0x87fff000]"
proof -
  note inst = allocator_invariant_preserved [OF layout_ok_xv6 kmem_inv_one]
  have m: "managed xv6_layout 0x87ffe000"
    by (simp add: managed_def xv6_layout_def)
  have idx: "PA2IDX xv6_layout 0x87ffe000 = 0x7ffe"
    by (simp add: PA2IDX_def xv6_layout_def)
  have r: "ref_counter kmem_one 0x7ffe = 1" by (simp add: kmem_one_def)
  have pos: "0 < sint (ref_counter kmem_one (PA2IDX xv6_layout 0x87ffe000))"
    by (simp only: idx r) simp
  have fl: "freelist kmem_one = 0x87fff000" by (simp add: kmem_one_def)
  have k: "fst (kalloc xv6_layout kmem_one) = 0x87fff000"
    by (simp add: kalloc_nonnull fl)
  have ka: "kmem_inv xv6_layout (snd (kalloc xv6_layout kmem_one)) []"
    using inst [THEN conjunct1] k
    by (cases "kalloc xv6_layout kmem_one") (simp split: if_splits)
  from inst [THEN conjunct2, THEN conjunct1, rule_format, of "0x87ffe000"] m pos
  obtain s' where s': "kfree xv6_layout 0x87ffe000 kmem_one = Inr s'"
    "ref_counter s' (PA2IDX xv6_layout 0x87ffe000)
       = ref_counter kmem_one (PA2IDX xv6_layout 0x87ffe000) - 1"
    "if ref_counter s' (PA2IDX xv6_layout 0x87ffe000) = 0
     then kmem_inv xv6_layout s' [0x87ffe000, 0x87fff000]
     else kmem_inv xv6_layout s' [0x87fff000] \<and> freelist s' = freelist kmem_one \<and>
          page_next s' = page_next kmem_one"
    by blast
  have "ref_counter s' (PA2IDX xv6_layout 0x87ffe000) = 0"
    using s'(2) by (simp only: idx r) simp
  with s'(3) have kf: "kmem_inv xv6_layout s' [0x87ffe000, 0x87fff000]" by simp
  from inst [THEN conjunct2, THEN conjunct2, rule_format, of "0x87ffe000"] m pos
  have inc: "kmem_inv xv6_layout (increase_ref_counter xv6_layout 0x87ffe000 kmem_one) [0x87fff000]"
    by (simp add: Let_def)
  show ?thesis using layout_ok_xv6 kmem_inv_one k ka m pos s'(1) kf inc by blast
qed

lemma rep8_5: "rep8 5 = 0x0505050505050505"
  by (simp add: rep8_def)

lemma rep8_1: "rep8 1 = 0x0101010101010101"
  by (simp add: rep8_def)

lemma kalloc_pops:
  assumes nz: "freelist s \<noteq> 0" and fl: "freelist_is (page_next s) (freelist s) ps"
  shows "\<exists>qs. ps = freelist s # qs \<and>
           freelist_is (page_next (snd (kalloc L s))) (freelist (snd (kalloc L s))) qs"
proof -
  obtain qs where ps: "ps = freelist s # qs" using nz fl by (cases ps) auto
  have "distinct ps" using fl by (rule freelist_is_distinct)
  then have notin: "freelist s \<notin> set qs" using ps by simp
  have "freelist_is (page_next s) (page_next s (freelist s)) qs" using fl ps by simp
  then have "freelist_is ((page_next s)(freelist s := rep8 5)) (page_next s (freelist s)) qs"
    using notin by (rule freelist_is_upd)
  then show ?thesis using ps by (simp add: kalloc_nonnull [OF nz])
qed

text \<open>
  Claim C7. \<open>kalloc\<close> always returns a value, and it returns the null pointer exactly
  when the free list is empty; the state is then unchanged. Otherwise it returns the
  head of the free list, the list loses exactly this first page, every byte of the page
  is 5 and the counter of the page is 1. When the free list is empty and \<open>kfree\<close> gives a
  page back (its counter does not stay positive), the next \<open>kalloc\<close> returns this page.
\<close>

theorem kalloc_exhaustion:
  "(fst (kalloc L s) = 0 \<longleftrightarrow> freelist s = 0) \<and>
   (freelist s = 0 \<longrightarrow> snd (kalloc L s) = s) \<and>
   (freelist s \<noteq> 0 \<longrightarrow>
      (case kalloc L s of (r, s') \<Rightarrow>
         r = freelist s \<and> freelist s' = page_next s r \<and>
         page_next s' r = 0x0505050505050505 \<and>
         page_rest s' r = replicate (unat (PGSIZE L) - 8) 5 \<and>
         ref_counter s' (PA2IDX L r) = 1 \<and>
         (\<forall>i. i \<noteq> PA2IDX L r \<longrightarrow> ref_counter s' i = ref_counter s i) \<and>
         (\<forall>ps. freelist_is (page_next s) (freelist s) ps \<longrightarrow>
               ps = r # tl ps \<and> freelist_is (page_next s') (freelist s') (tl ps)))) \<and>
   (layout_ok L \<and> freelist s = 0 \<and> managed L pa \<and>
    sint (ref_counter s (PA2IDX L pa) - 1) \<le> 0 \<longrightarrow>
      (\<exists>s1. kfree L pa s = Inr s1 \<and> fst (kalloc L s1) = pa \<and> pa \<noteq> 0 \<and>
            ref_counter (snd (kalloc L s1)) (PA2IDX L pa) = 1))"
proof (intro conjI impI)
  show "fst (kalloc L s) = 0 \<longleftrightarrow> freelist s = 0"
    by (cases "freelist s = 0") (simp_all add: kalloc_null kalloc_nonnull)
next
  assume "freelist s = 0"
  then show "snd (kalloc L s) = s" by (simp add: kalloc_null)
next
  assume nz: "freelist s \<noteq> 0"
  have "\<forall>ps. freelist_is (page_next s) (freelist s) ps \<longrightarrow>
          ps = freelist s # tl ps \<and>
          freelist_is (page_next (snd (kalloc L s))) (freelist (snd (kalloc L s))) (tl ps)"
  proof (intro allI impI)
    fix ps
    assume "freelist_is (page_next s) (freelist s) ps"
    from kalloc_pops [OF nz this, of L] obtain qs where
      "ps = freelist s # qs"
      "freelist_is (page_next (snd (kalloc L s))) (freelist (snd (kalloc L s))) qs"
      by blast
    then show "ps = freelist s # tl ps \<and>
          freelist_is (page_next (snd (kalloc L s))) (freelist (snd (kalloc L s))) (tl ps)"
      by simp
  qed
  then show "case kalloc L s of (r, s') \<Rightarrow>
         r = freelist s \<and> freelist s' = page_next s r \<and>
         page_next s' r = 0x0505050505050505 \<and>
         page_rest s' r = replicate (unat (PGSIZE L) - 8) 5 \<and>
         ref_counter s' (PA2IDX L r) = 1 \<and>
         (\<forall>i. i \<noteq> PA2IDX L r \<longrightarrow> ref_counter s' i = ref_counter s i) \<and>
         (\<forall>ps. freelist_is (page_next s) (freelist s) ps \<longrightarrow>
               ps = r # tl ps \<and> freelist_is (page_next s') (freelist s') (tl ps))"
    by (simp add: kalloc_nonnull [OF nz] rep8_5)
next
  assume h: "layout_ok L \<and> freelist s = 0 \<and> managed L pa \<and>
    sint (ref_counter s (PA2IDX L pa) - 1) \<le> 0"
  then have ok: "layout_ok L " and mp: "managed L pa"
    and le: "sint (ref_counter s (PA2IDX L pa) - 1) \<le> 0" by simp_all
  have nz: "pa \<noteq> 0" using ok mp by (rule managed_nonnull)
  show "\<exists>s1. kfree L pa s = Inr s1 \<and> fst (kalloc L s1) = pa \<and> pa \<noteq> 0 \<and>
            ref_counter (snd (kalloc L s1)) (PA2IDX L pa) = 1"
    using nz by (simp add: kfree_push [OF mp le] kalloc_nonnull)
qed

theorem kalloc_exhaustion_witness:
  "fst (kalloc xv6_layout kmem_none) = 0 \<and>
   snd (kalloc xv6_layout kmem_none) = kmem_none \<and>
   fst (kalloc xv6_layout kmem_one) = 0x87fff000 \<and>
   freelist (snd (kalloc xv6_layout kmem_one)) = 0 \<and>
   page_rest (snd (kalloc xv6_layout kmem_one)) 0x87fff000 = replicate 4088 5 \<and>
   freelist_is (page_next (snd (kalloc xv6_layout kmem_one)))
     (freelist (snd (kalloc xv6_layout kmem_one))) [] \<and>
   (\<exists>s1. kfree xv6_layout 0x87fff000 kmem_none = Inr s1 \<and>
      fst (kalloc xv6_layout s1) = 0x87fff000)"
proof -
  have z: "freelist kmem_none = 0" by (simp add: kmem_none_def)
  have nz: "freelist kmem_one \<noteq> 0" by (simp add: kmem_one_def)
  have fl: "freelist_is (page_next kmem_one) (freelist kmem_one) [0x87fff000]"
    by (simp add: kmem_one_def)
  have le: "sint (ref_counter kmem_none (PA2IDX xv6_layout 0x87fff000) - 1) \<le> 0"
    by (simp add: kmem_none_def)
  have pg: "unat (PGSIZE xv6_layout) - 8 = 4088" by (simp add: xv6_layout_def)
  note none = kalloc_exhaustion [of xv6_layout kmem_none "0x87fff000"]
  note one = kalloc_exhaustion [of xv6_layout kmem_one "0x87fff000"]
  have a: "fst (kalloc xv6_layout kmem_none) = 0" using none z by blast
  have b: "snd (kalloc xv6_layout kmem_none) = kmem_none" using none z by blast
  note c = one [THEN conjunct2, THEN conjunct2, THEN conjunct1, rule_format, OF nz]
  obtain r s' where rs: "kalloc xv6_layout kmem_one = (r, s')"
    by (cases "kalloc xv6_layout kmem_one")
  have r: "r = 0x87fff000" using c rs by (simp add: kmem_one_def)
  have c1: "freelist s' = 0" using c rs by (simp add: kmem_one_def)
  have c2: "page_rest s' 0x87fff000 = replicate 4088 5" using c rs r pg by simp
  have c3: "freelist_is (page_next s') (freelist s') (tl [0x87fff000])"
    using c rs fl by simp
  have d: "\<exists>s1. kfree xv6_layout 0x87fff000 kmem_none = Inr s1 \<and>
      fst (kalloc xv6_layout s1) = 0x87fff000"
    using none layout_ok_xv6 z managed_xv6_top le by blast
  show ?thesis using a b r c1 c2 c3 d by (simp add: rs)
qed

lemma kfree_on_zero_count:
  "(managed L pa \<and> ref_counter s (PA2IDX L pa) = 0 \<longrightarrow>
      (\<exists>s'. kfree L pa s = Inr s' \<and> freelist s' = pa \<and> page_next s' pa = freelist s \<and>
            page_rest s' pa = replicate (unat (PGSIZE L) - 8) 1 \<and>
            ref_counter s' (PA2IDX L pa) = 0)) \<and>
   (\<forall>s'. kfree L pa s = Inr s' \<longrightarrow>
      0 \<le> sint (ref_counter s' (PA2IDX L pa)) \<and>
      (\<forall>i. i \<noteq> PA2IDX L pa \<longrightarrow> ref_counter s' i = ref_counter s i))"
proof (intro conjI allI impI)
  assume h: "managed L pa \<and> ref_counter s (PA2IDX L pa) = 0"
  then have mp: "managed L pa" and z: "ref_counter s (PA2IDX L pa) = 0" by simp_all
  have le: "sint (ref_counter s (PA2IDX L pa) - 1) \<le> 0" using z by simp
  show "\<exists>s'. kfree L pa s = Inr s' \<and> freelist s' = pa \<and> page_next s' pa = freelist s \<and>
            page_rest s' pa = replicate (unat (PGSIZE L) - 8) 1 \<and>
            ref_counter s' (PA2IDX L pa) = 0"
    by (simp add: kfree_push [OF mp le])
next
  fix s'
  assume k: "kfree L pa s = Inr s'"
  then have mp: "managed L pa"
    by (auto simp: kfree_def managed_def not_le not_less split: if_splits)
  show "0 \<le> sint (ref_counter s' (PA2IDX L pa))"
  proof (cases "sint (ref_counter s (PA2IDX L pa) - 1) \<le> 0")
    case True
    from k show ?thesis by (simp add: kfree_push [OF mp True]) auto
  next
    case False
    from k False show ?thesis by (simp add: kfree_keep [OF mp False]) auto
  qed
next
  fix s' i
  assume k: "kfree L pa s = Inr s'" and i: "i \<noteq> PA2IDX L pa"
  then have mp: "managed L pa"
    by (auto simp: kfree_def managed_def not_le not_less split: if_splits)
  show "ref_counter s' i = ref_counter s i"
  proof (cases "sint (ref_counter s (PA2IDX L pa) - 1) \<le> 0")
    case True
    from k i show ?thesis by (simp add: kfree_push [OF mp True]) auto
  next
    case False
    from k i show ?thesis by (simp add: kfree_keep [OF mp False]) auto
  qed
qed

subsection \<open>Seeding the free list\<close>

lemma nat_aligned_between:
  fixes a b n :: nat
  assumes "a mod n = 0" "b mod n = 0" "a \<le> b" "b < a + n"
  shows "b = a"
proof (rule ccontr)
  assume "b \<noteq> a"
  with assms have lt: "a < b" by simp
  have "n dvd b - a" using assms by (simp add: dvd_diff_nat mod_eq_0_iff_dvd)
  then have "n \<le> b - a" using lt by (simp add: dvd_imp_le)
  with assms show False by simp
qed

lemma unat_aligned: "(p :: u64) mod n = 0 \<longleftrightarrow> unat p mod unat n = 0"
  by (simp add: unat_mod [symmetric] unat_eq_0)

lemma kfree_seed:
  assumes mp: "managed L p" and z: "ref_counter s (PA2IDX L p) = 0"
  shows "kfree L p s =
     Inr (s\<lparr>ref_counter := (ref_counter s)(PA2IDX L p := 0),
            page_next := (page_next s)(p := freelist s),
            page_rest := (page_rest s)(p := replicate (unat (PGSIZE L) - 8) 1),
            freelist := p\<rparr>)"
  using z by (intro kfree_push [OF mp]) simp

lemma freerange_loop_seeds:
  assumes ok: "layout_ok L" and seed: "seed_ok L"
  shows "p mod PGSIZE L = 0 \<Longrightarrow> kend L \<le> p \<Longrightarrow>
         unat p + n * unat (PGSIZE L) = unat (PHYSTOP L) \<Longrightarrow>
         freelist_is (page_next s) (freelist s) ps \<Longrightarrow>
         set ps = {q. managed L q \<and> q < p} \<Longrightarrow>
         (\<forall>q. managed L q \<longrightarrow> ref_counter s (PA2IDX L q) = 0) \<Longrightarrow>
         \<exists>s' ps'. freerange_loop L p (PHYSTOP L) s = Some (Inr s') \<and>
           freelist_is (page_next s') (freelist s') ps' \<and>
           set ps' = {q. managed L q} \<and>
           (\<forall>q. managed L q \<longrightarrow> ref_counter s' (PA2IDX L q) = 0)"
proof (induction n arbitrary: p s ps)
  case 0
  have pg: "0 < unat (PGSIZE L)" using ok by (simp add: layout_ok_def unat_gt_0)
  have nowrap: "unat (PHYSTOP L) + unat (PGSIZE L) < 2 ^ 64" using seed by (simp add: seed_ok_def)
  from "0.prems"(3) have top: "unat p = unat (PHYSTOP L)" by simp
  then have peq: "p = PHYSTOP L" by (simp add: word_unat_eq_iff)
  have "unat (p + PGSIZE L) = unat p + unat (PGSIZE L)"
    using nowrap top by (simp add: unat_add_lem [THEN iffD1])
  then have "\<not> p + PGSIZE L \<le> PHYSTOP L"
    using pg top by (simp add: word_le_nat_alt)
  then have r: "freerange_loop L p (PHYSTOP L) s = Some (Inr s)"
    by (subst freerange_loop.simps) simp
  have "set ps = {q. managed L q}"
    using "0.prems"(5) peq by (auto simp: managed_def)
  with r "0.prems"(4,6) show ?case by blast
next
  case (Suc n)
  have pg: "0 < unat (PGSIZE L)" using ok by (simp add: layout_ok_def unat_gt_0)
  have nowrap: "unat (PHYSTOP L) + unat (PGSIZE L) < 2 ^ 64" using seed by (simp add: seed_ok_def)
  from Suc.prems(3) have room: "unat p + unat (PGSIZE L) \<le> unat (PHYSTOP L)" by simp
  then have add: "unat (p + PGSIZE L) = unat p + unat (PGSIZE L)"
    using nowrap by (simp add: unat_add_lem [THEN iffD1])
  then have cond: "p + PGSIZE L \<le> PHYSTOP L" using room by (simp add: word_le_nat_alt)
  have plt: "p < PHYSTOP L" using room pg by (simp add: word_less_nat_alt)
  have mp: "managed L p" using Suc.prems(1,2) plt by (simp add: managed_def)
  have z: "ref_counter s (PA2IDX L p) = 0" using Suc.prems(6) mp by blast
  let ?s1 = "s\<lparr>ref_counter := (ref_counter s)(PA2IDX L p := 0),
            page_next := (page_next s)(p := freelist s),
            page_rest := (page_rest s)(p := replicate (unat (PGSIZE L) - 8) 1),
            freelist := p\<rparr>"
  have kf: "kfree L p s = Inr ?s1" using mp z by (rule kfree_seed)
  have step: "freerange_loop L p (PHYSTOP L) s = freerange_loop L (p + PGSIZE L) (PHYSTOP L) ?s1"
    using cond kf by (subst freerange_loop.simps) simp
  have notin: "p \<notin> set ps" using Suc.prems(5) by simp
  have a1: "(p + PGSIZE L) mod PGSIZE L = 0"
    using Suc.prems(1) add by (simp add: unat_aligned)
  have a2: "kend L \<le> p + PGSIZE L"
    using Suc.prems(2) add by (simp add: word_le_nat_alt)
  have a3: "unat (p + PGSIZE L) + n * unat (PGSIZE L) = unat (PHYSTOP L)"
    using Suc.prems(3) add by simp
  have a4: "freelist_is (page_next ?s1) (freelist ?s1) (p # ps)"
    using Suc.prems(4) notin managed_nonnull [OF ok mp] by (simp add: freelist_is_upd)
  have a5: "set (p # ps) = {q. managed L q \<and> q < p + PGSIZE L}"
  proof (intro set_eqI iffI)
    fix q assume "q \<in> set (p # ps)"
    then have "q = p \<or> (managed L q \<and> q < p)" using Suc.prems(5) by auto
    then show "q \<in> {q. managed L q \<and> q < p + PGSIZE L}"
      using mp add pg by (auto simp: word_less_nat_alt)
  next
    fix q assume "q \<in> {q. managed L q \<and> q < p + PGSIZE L}"
    then have mq: "managed L q" and lt: "unat q < unat p + unat (PGSIZE L)"
      using add by (simp_all add: word_less_nat_alt)
    show "q \<in> set (p # ps)"
    proof (cases "q < p")
      case True
      with mq Suc.prems(5) show ?thesis by simp
    next
      case False
      then have le: "unat p \<le> unat q" by (simp add: word_less_nat_alt)
      have ap: "unat p mod unat (PGSIZE L) = 0" and aq: "unat q mod unat (PGSIZE L) = 0"
        using Suc.prems(1) mq by (simp_all add: managed_def unat_aligned)
      from ap aq le lt have "unat q = unat p" by (rule nat_aligned_between)
      then show ?thesis by (simp add: word_unat_eq_iff)
    qed
  qed
  have a6: "\<forall>q. managed L q \<longrightarrow> ref_counter ?s1 (PA2IDX L q) = 0"
    using Suc.prems(6) by simp
  from Suc.IH [OF a1 a2 a3 a4 a5 a6] step show ?case by simp
qed

lemma PA2IDX_in_range:
  assumes ok: "layout_ok L" and seed: "seed_ok L" and mq: "managed L q"
  shows "PA2IDX L q < NUM_OF_PAGE L"
proof -
  have kq: "KERNBASE L \<le> q" and qp: "q < PHYSTOP L"
    using ok mq by (auto simp: layout_ok_def managed_def)
  then have kp: "KERNBASE L \<le> PHYSTOP L" by simp
  have aq: "unat q mod unat (PGSIZE L) = 0" and ap: "unat (PHYSTOP L) mod unat (PGSIZE L) = 0"
    using mq seed by (simp_all add: managed_def seed_ok_def unat_aligned)
  have kq': "unat (KERNBASE L) \<le> unat q" using kq by (simp add: word_le_nat_alt)
  have qp': "unat q < unat (PHYSTOP L)" using qp by (simp add: word_less_nat_alt)
  from aq ap kq' qp' have "(unat q - unat (KERNBASE L)) div unat (PGSIZE L)
      < (unat (PHYSTOP L) - unat (KERNBASE L)) div unat (PGSIZE L)"
    by (rule nat_page_index_inj_aux)
  then show ?thesis
    using kq kp by (simp add: PA2IDX_def NUM_OF_PAGE_def word_less_nat_alt unat_div unat_sub)
qed

lemma nat_aligned_span:
  fixes a b n :: nat
  assumes "a mod n = 0" "b mod n = 0" "a \<le> b"
  shows "a + (b - a) div n * n = b"
proof -
  have "n dvd b - a" using assms by (simp add: dvd_diff_nat mod_eq_0_iff_dvd)
  then have "(b - a) div n * n = b - a" by simp
  with assms show ?thesis by simp
qed

text \<open>
  \<open>kinit\<close> on the allocator at boot: every \<open>kfree\<close> of the seeding finds the counter
  of its page at 0, and the result satisfies the invariant of the allocator with every
  managed page on the free list.
\<close>

lemma kinit_seeds:
  assumes ok: "layout_ok L" and seed: "seed_ok L" and empty: "freelist s = 0"
  shows "\<exists>s' ps. kinit L s = Some (Inr s') \<and> kmem_inv L s' ps \<and> set ps = {p. managed L p} \<and>
           (\<forall>q. managed L q \<longrightarrow> ref_counter s' (PA2IDX L q) = 0)"
proof -
  let ?p0 = "PGROUNDUP L (kend L)"
  let ?s = "s\<lparr>ref_counter := (\<lambda>i. if i < NUM_OF_PAGE L then 0 else ref_counter s i)\<rparr>"
  let ?n = "(unat (PHYSTOP L) - unat ?p0) div unat (PGSIZE L)"
  have a1: "?p0 mod PGSIZE L = 0" and a2: "kend L \<le> ?p0"
    and least: "\<forall>q. q mod PGSIZE L = 0 \<and> kend L \<le> q \<longrightarrow> ?p0 \<le> q"
    and top: "?p0 \<le> PHYSTOP L" and ptop: "PHYSTOP L mod PGSIZE L = 0"
    using seed by (simp_all add: seed_ok_def)
  have "unat ?p0 mod unat (PGSIZE L) = 0" "unat (PHYSTOP L) mod unat (PGSIZE L) = 0"
    "unat ?p0 \<le> unat (PHYSTOP L)"
    using a1 ptop top by (simp_all add: unat_aligned word_le_nat_alt)
  then have a3: "unat ?p0 + ?n * unat (PGSIZE L) = unat (PHYSTOP L)"
    by (rule nat_aligned_span)
  have a4: "freelist_is (page_next ?s) (freelist ?s) []" using empty by simp
  have "\<And>q. managed L q \<Longrightarrow> \<not> q < ?p0"
  proof -
    fix q assume "managed L q"
    then have "q mod PGSIZE L = 0 \<and> kend L \<le> q" by (simp add: managed_def)
    then have "?p0 \<le> q" by (rule least [rule_format])
    then show "\<not> q < ?p0" by simp
  qed
  then have a5: "set [] = {q. managed L q \<and> q < ?p0}" by auto
  have a6: "\<forall>q. managed L q \<longrightarrow> ref_counter ?s (PA2IDX L q) = 0"
    using PA2IDX_in_range [OF ok seed] by simp
  from freerange_loop_seeds [OF ok seed a1 a2 a3 a4 a5 a6] obtain s' ps where
    r: "freerange_loop L ?p0 (PHYSTOP L) ?s = Some (Inr s')"
    and fl: "freelist_is (page_next s') (freelist s') ps"
    and all: "set ps = {q. managed L q}"
    and z: "\<forall>q. managed L q \<longrightarrow> ref_counter s' (PA2IDX L q) = 0"
    by blast
  have k: "kinit L s = Some (Inr s')" using r by (simp add: kinit_def freerange_def)
  have "list_all (managed L) ps" using all by (simp add: list_all_iff)
  moreover have "\<forall>p. managed L p \<and> ref_counter s' (PA2IDX L p) = 0 \<longrightarrow> p \<in> set ps"
    using all by simp
  moreover have "\<forall>p. managed L p \<and> 0 < sint (ref_counter s' (PA2IDX L p)) \<longrightarrow> p \<notin> set ps"
    using z by auto
  ultimately have "kmem_inv L s' ps" using fl by (simp add: kmem_inv_def)
  with k all z show ?thesis by blast
qed

text \<open>
  Claim C10. \<open>kfree\<close> of an aligned page in range whose counter is already 0 (the
  seeding of \<open>kinit\<close>, a double free) does not panic: the decrement gives -1, so the page
  is filled with 1, linked in front of the old free list and made its head, and the
  counter is set back to 0. Whatever the counter was, after a \<open>kfree\<close> that returns the
  counter of the page is not negative, and no other counter has changed. \<open>kinit\<close> makes
  such calls only: it clears the counters, so that \<open>freerange\<close> frees pages whose counter
  is 0, and it ends with every managed page on the free list and all their counters 0.
\<close>

theorem kfree_zero_count:
  "(managed L pa \<and> ref_counter s (PA2IDX L pa) = 0 \<longrightarrow>
      (\<exists>s'. kfree L pa s = Inr s' \<and> freelist s' = pa \<and> page_next s' pa = freelist s \<and>
            page_rest s' pa = replicate (unat (PGSIZE L) - 8) 1 \<and>
            ref_counter s' (PA2IDX L pa) = 0)) \<and>
   (\<forall>s'. kfree L pa s = Inr s' \<longrightarrow>
      0 \<le> sint (ref_counter s' (PA2IDX L pa)) \<and>
      (\<forall>i. i \<noteq> PA2IDX L pa \<longrightarrow> ref_counter s' i = ref_counter s i)) \<and>
   (layout_ok L \<and> seed_ok L \<and> freelist s = 0 \<longrightarrow>
      (\<forall>q. managed L q \<longrightarrow>
         (if PA2IDX L q < NUM_OF_PAGE L then 0 else ref_counter s (PA2IDX L q)) = 0) \<and>
      (\<exists>s' ps. kinit L s = Some (Inr s') \<and> kmem_inv L s' ps \<and> set ps = {p. managed L p} \<and>
         (\<forall>q. managed L q \<longrightarrow> ref_counter s' (PA2IDX L q) = 0)))"
proof (intro conjI)
  show "managed L pa \<and> ref_counter s (PA2IDX L pa) = 0 \<longrightarrow>
      (\<exists>s'. kfree L pa s = Inr s' \<and> freelist s' = pa \<and> page_next s' pa = freelist s \<and>
            page_rest s' pa = replicate (unat (PGSIZE L) - 8) 1 \<and>
            ref_counter s' (PA2IDX L pa) = 0)"
    using kfree_on_zero_count [of L pa s] by blast
  show "\<forall>s'. kfree L pa s = Inr s' \<longrightarrow>
      0 \<le> sint (ref_counter s' (PA2IDX L pa)) \<and>
      (\<forall>i. i \<noteq> PA2IDX L pa \<longrightarrow> ref_counter s' i = ref_counter s i)"
    using kfree_on_zero_count [of L pa s] by blast
  show "layout_ok L \<and> seed_ok L \<and> freelist s = 0 \<longrightarrow>
      (\<forall>q. managed L q \<longrightarrow>
         (if PA2IDX L q < NUM_OF_PAGE L then 0 else ref_counter s (PA2IDX L q)) = 0) \<and>
      (\<exists>s' ps. kinit L s = Some (Inr s') \<and> kmem_inv L s' ps \<and> set ps = {p. managed L p} \<and>
         (\<forall>q. managed L q \<longrightarrow> ref_counter s' (PA2IDX L q) = 0))"
  proof
    assume h: "layout_ok L \<and> seed_ok L \<and> freelist s = 0"
    then have ok: "layout_ok L" and seed: "seed_ok L" and empty: "freelist s = 0" by simp_all
    have a: "\<forall>q. managed L q \<longrightarrow>
         (if PA2IDX L q < NUM_OF_PAGE L then 0 else ref_counter s (PA2IDX L q)) = 0"
      using PA2IDX_in_range [OF ok seed] by simp
    from a kinit_seeds [OF ok seed empty]
    show "(\<forall>q. managed L q \<longrightarrow>
         (if PA2IDX L q < NUM_OF_PAGE L then 0 else ref_counter s (PA2IDX L q)) = 0) \<and>
      (\<exists>s' ps. kinit L s = Some (Inr s') \<and> kmem_inv L s' ps \<and> set ps = {p. managed L p} \<and>
         (\<forall>q. managed L q \<longrightarrow> ref_counter s' (PA2IDX L q) = 0))"
      by (rule conjI)
  qed
qed

lemma seed_ok_xv6: "seed_ok xv6_layout"
proof -
  have r: "PGROUNDUP xv6_layout (kend xv6_layout) = kend xv6_layout"
    by (simp add: xv6_layout_def)
  show ?thesis
    unfolding seed_ok_def r by (simp add: xv6_layout_def)
qed

theorem kfree_zero_count_witness:
  "managed xv6_layout 0x87fff000 \<and>
   ref_counter kmem_one (PA2IDX xv6_layout 0x87fff000) = 0 \<and>
   (\<exists>s'. kfree xv6_layout 0x87fff000 kmem_one = Inr s' \<and> freelist s' = 0x87fff000 \<and>
         page_next s' 0x87fff000 = 0x87fff000 \<and>
         ref_counter s' 0x7fff = 0 \<and> 0 \<le> sint (ref_counter s' 0x7fff)) \<and>
   layout_ok xv6_layout \<and> seed_ok xv6_layout \<and> freelist kmem_boot = 0 \<and>
   (\<exists>s' ps. kinit xv6_layout kmem_boot = Some (Inr s') \<and> kmem_inv xv6_layout s' ps \<and>
      0x87fff000 \<in> set ps \<and> ref_counter s' 0x7fff = 0)"
proof -
  have z: "ref_counter kmem_one (PA2IDX xv6_layout 0x87fff000) = 0"
    by (simp only: PA2IDX_xv6_top) (simp add: kmem_one_def)
  note inst = kfree_zero_count [of xv6_layout "0x87fff000" kmem_one]
  from inst managed_xv6_top z obtain s' where
    s': "kfree xv6_layout 0x87fff000 kmem_one = Inr s'" "freelist s' = 0x87fff000"
      "page_next s' 0x87fff000 = freelist kmem_one"
      "ref_counter s' (PA2IDX xv6_layout 0x87fff000) = 0"
    by blast
  from inst s'(1) have "0 \<le> sint (ref_counter s' (PA2IDX xv6_layout 0x87fff000))"
    by blast
  with s' have a: "\<exists>s'. kfree xv6_layout 0x87fff000 kmem_one = Inr s' \<and> freelist s' = 0x87fff000 \<and>
         page_next s' 0x87fff000 = 0x87fff000 \<and>
         ref_counter s' 0x7fff = 0 \<and> 0 \<le> sint (ref_counter s' 0x7fff)"
    by (intro exI [of _ s']) (simp add: PA2IDX_xv6_top kmem_one_def)
  have e: "freelist kmem_boot = 0" by (simp add: kmem_boot_def)
  note boot = kfree_zero_count [of xv6_layout 0 kmem_boot]
  from boot layout_ok_xv6 seed_ok_xv6 e obtain s2 ps where
    k: "kinit xv6_layout kmem_boot = Some (Inr s2)" "kmem_inv xv6_layout s2 ps"
      "set ps = {p. managed xv6_layout p}"
      "\<forall>q. managed xv6_layout q \<longrightarrow> ref_counter s2 (PA2IDX xv6_layout q) = 0"
    by blast
  have "0x87fff000 \<in> set ps" using k(3) managed_xv6_top by simp
  moreover have "ref_counter s2 0x7fff = 0"
    using k(4) managed_xv6_top PA2IDX_xv6_top by fastforce
  ultimately have b: "\<exists>s' ps. kinit xv6_layout kmem_boot = Some (Inr s') \<and>
      kmem_inv xv6_layout s' ps \<and> 0x87fff000 \<in> set ps \<and> ref_counter s' 0x7fff = 0"
    using k(1,2) by blast
  from managed_xv6_top z a layout_ok_xv6 seed_ok_xv6 e b show ?thesis by blast
qed

lemma kalloc_alloc_state:
  assumes ok: "layout_ok L" and inv: "kmem_inv L s ps"
    and alloc: "kalloc L s = (p, s1)" and nz: "p \<noteq> 0"
  shows "\<exists>qs. ps = p # qs \<and> p \<notin> set qs \<and> managed L p \<and> kmem_inv L s1 qs \<and>
           ref_counter s1 (PA2IDX L p) = 1"
proof -
  have fnz: "freelist s \<noteq> 0" using alloc nz by (cases "freelist s = 0") (simp_all add: kalloc_null)
  have p: "p = freelist s" using alloc by (simp add: kalloc_nonnull [OF fnz])
  obtain qs where ps: "ps = freelist s # qs" using kmem_inv_head [OF inv fnz] by blast
  have "distinct ps" using inv freelist_is_distinct kmem_inv_freelist by blast
  then have notin: "freelist s \<notin> set qs" using ps by simp
  have mg: "managed L (freelist s)" using inv ps kmem_inv_managed by fastforce
  have "kmem_inv L (snd (kalloc L s)) (tl ps)" using ok inv fnz by (rule kalloc_inv)
  then have i1: "kmem_inv L s1 qs" using alloc ps by simp
  have "ref_counter s1 (PA2IDX L p) = 1" using alloc by (auto simp: kalloc_nonnull [OF fnz])
  then show ?thesis using ps p notin mg i1 by blast
qed

lemma increase_ref_counter_eq:
  "increase_ref_counter L pa s =
     s\<lparr>ref_counter := (ref_counter s)(PA2IDX L pa := ref_counter s (PA2IDX L pa) + 1)\<rparr>"
  by (simp add: increase_ref_counter_def Let_def)

text \<open>
  Claim C5. Let \<open>kalloc\<close> return a page \<open>p\<close> from a state that satisfies the invariant
  with free list \<open>ps\<close>. An immediate \<open>kfree\<close> of \<open>p\<close> does not panic and gives back the free
  list \<open>ps\<close>, on which \<open>p\<close> occurs once, with counter 0. After \<open>increase_ref_counter\<close>
  instead, a first \<open>kfree\<close> leaves the counter at 1 and the page off the free list, and a
  second one sets the counter to 0 and puts the page back in front of the free list.
\<close>

theorem refcount_round_trip:
  assumes ok: "layout_ok L" and inv: "kmem_inv L s ps"
    and alloc: "kalloc L s = (p, s1)" and nz: "p \<noteq> 0"
  shows
    "(\<exists>s2. kfree L p s1 = Inr s2 \<and> kmem_inv L s2 ps \<and> count_list ps p = 1 \<and>
           freelist s2 = p \<and> ref_counter s2 (PA2IDX L p) = 0) \<and>
     (\<exists>s3 s4. kfree L p (increase_ref_counter L p s1) = Inr s3 \<and>
           ref_counter s3 (PA2IDX L p) = 1 \<and> kmem_inv L s3 (tl ps) \<and> p \<notin> set (tl ps) \<and>
           kfree L p s3 = Inr s4 \<and>
           ref_counter s4 (PA2IDX L p) = 0 \<and> kmem_inv L s4 ps \<and> freelist s4 = p)"
proof -
  from kalloc_alloc_state [OF ok inv alloc nz] obtain qs where
    ps: "ps = p # qs" and notin: "p \<notin> set qs" and mp: "managed L p"
    and i1: "kmem_inv L s1 qs" and one: "ref_counter s1 (PA2IDX L p) = 1"
    by blast
  have cnt: "count_list ps p = 1" using ps notin by (simp add: count_list_0_iff)
  from kfree_inv_last [OF ok i1 mp notin one] obtain s2 where
    s2: "kfree L p s1 = Inr s2" "kmem_inv L s2 (p # qs)" "freelist s2 = p"
      "ref_counter s2 (PA2IDX L p) = 0"
    by blast
  have first: "\<exists>s2. kfree L p s1 = Inr s2 \<and> kmem_inv L s2 ps \<and> count_list ps p = 1 \<and>
           freelist s2 = p \<and> ref_counter s2 (PA2IDX L p) = 0"
    using s2 cnt ps by blast
  let ?s1' = "increase_ref_counter L p s1"
  have two: "ref_counter ?s1' (PA2IDX L p) = 2"
    using one by (simp add: increase_ref_counter_eq)
  have "kmem_inv L (s1\<lparr>ref_counter := (ref_counter s1)(PA2IDX L p := 2)\<rparr>) qs"
    using ok i1 mp notin by (rule kmem_inv_ref_upd) simp
  then have i1': "kmem_inv L ?s1' qs" using one by (simp add: increase_ref_counter_eq)
  have more: "\<not> sint (ref_counter ?s1' (PA2IDX L p) - 1) \<le> 0"
    by (simp only: two) simp
  from kfree_inv_shared [OF ok i1' mp notin more] obtain s3 where
    s3: "kfree L p ?s1' = Inr s3" "kmem_inv L s3 qs"
      "ref_counter s3 (PA2IDX L p) = ref_counter ?s1' (PA2IDX L p) - 1"
    by blast
  have one3: "ref_counter s3 (PA2IDX L p) = 1" using s3(3) by (simp only: two) simp
  from kfree_inv_last [OF ok s3(2) mp notin one3] obtain s4 where
    s4: "kfree L p s3 = Inr s4" "kmem_inv L s4 (p # qs)" "freelist s4 = p"
      "ref_counter s4 (PA2IDX L p) = 0"
    by blast
  have second: "\<exists>s3 s4. kfree L p ?s1' = Inr s3 \<and>
           ref_counter s3 (PA2IDX L p) = 1 \<and> kmem_inv L s3 (tl ps) \<and> p \<notin> set (tl ps) \<and>
           kfree L p s3 = Inr s4 \<and>
           ref_counter s4 (PA2IDX L p) = 0 \<and> kmem_inv L s4 ps \<and> freelist s4 = p"
    using s3(1,2) one3 s4 notin ps by (intro exI [of _ s3] exI [of _ s4]) simp
  from first second show ?thesis by (rule conjI)
qed

theorem refcount_round_trip_witness:
  "layout_ok xv6_layout \<and> kmem_inv xv6_layout kmem_one [0x87fff000] \<and>
   fst (kalloc xv6_layout kmem_one) = 0x87fff000 \<and>
   (\<exists>s2. kfree xv6_layout 0x87fff000 (snd (kalloc xv6_layout kmem_one)) = Inr s2 \<and>
         kmem_inv xv6_layout s2 [0x87fff000] \<and> ref_counter s2 0x7fff = 0) \<and>
   (\<exists>s3 s4. kfree xv6_layout 0x87fff000
               (increase_ref_counter xv6_layout 0x87fff000 (snd (kalloc xv6_layout kmem_one)))
             = Inr s3 \<and>
         ref_counter s3 0x7fff = 1 \<and> kmem_inv xv6_layout s3 [] \<and>
         kfree xv6_layout 0x87fff000 s3 = Inr s4 \<and> ref_counter s4 0x7fff = 0 \<and>
         kmem_inv xv6_layout s4 [0x87fff000])"
proof -
  have fl: "freelist kmem_one = 0x87fff000" by (simp add: kmem_one_def)
  have k: "fst (kalloc xv6_layout kmem_one) = 0x87fff000"
    by (simp add: kalloc_nonnull fl)
  then have alloc: "kalloc xv6_layout kmem_one = (0x87fff000, snd (kalloc xv6_layout kmem_one))"
    by (cases "kalloc xv6_layout kmem_one") simp
  have nz: "(0x87fff000 :: u64) \<noteq> 0" by simp
  note inst = refcount_round_trip [OF layout_ok_xv6 kmem_inv_one alloc nz]
  have "\<exists>s2. kfree xv6_layout 0x87fff000 (snd (kalloc xv6_layout kmem_one)) = Inr s2 \<and>
         kmem_inv xv6_layout s2 [0x87fff000] \<and> ref_counter s2 0x7fff = 0"
    using inst [THEN conjunct1] by (auto simp: PA2IDX_xv6_top)
  moreover have "\<exists>s3 s4. kfree xv6_layout 0x87fff000
               (increase_ref_counter xv6_layout 0x87fff000 (snd (kalloc xv6_layout kmem_one)))
             = Inr s3 \<and>
         ref_counter s3 0x7fff = 1 \<and> kmem_inv xv6_layout s3 [] \<and>
         kfree xv6_layout 0x87fff000 s3 = Inr s4 \<and> ref_counter s4 0x7fff = 0 \<and>
         kmem_inv xv6_layout s4 [0x87fff000]"
    using inst [THEN conjunct2] by (auto simp: PA2IDX_xv6_top)
  ultimately show ?thesis
    using layout_ok_xv6 kmem_inv_one k by blast
qed

section \<open>Properties of the buffer cache\<close>

subsection \<open>The two scans\<close>

lemma scan_free_None: "scan_free bf xs = None \<longleftrightarrow> (\<forall>x\<in>set xs. refcnt (bf x) \<noteq> 0)"
  by (induction xs) auto

lemma scan_free_Some:
  "scan_free bf xs = Some b \<Longrightarrow>
   \<exists>pre post. xs = pre @ b # post \<and> refcnt (bf b) = 0 \<and> (\<forall>x\<in>set pre. refcnt (bf x) \<noteq> 0)"
proof (induction xs)
  case Nil
  then show ?case by simp
next
  case (Cons x xs)
  show ?case
  proof (cases "refcnt (bf x) = 0")
    case True
    with Cons.prems have "x = b" by simp
    with True show ?thesis by (intro exI [of _ "[]"] exI [of _ xs]) simp
  next
    case False
    with Cons.prems have "scan_free bf xs = Some b" by simp
    from Cons.IH [OF this] obtain pre post where
      "xs = pre @ b # post" "refcnt (bf b) = 0" "\<forall>x\<in>set pre. refcnt (bf x) \<noteq> 0"
      by blast
    with False show ?thesis by (intro exI [of _ "x # pre"] exI [of _ post]) simp
  qed
qed

lemma scan_key_None:
  "scan_key bf d k xs = None \<longleftrightarrow> (\<forall>x\<in>set xs. \<not> (dev (bf x) = d \<and> blockno (bf x) = k))"
  by (induction xs) auto

lemma scan_key_Some:
  "scan_key bf d k xs = Some b \<Longrightarrow>
   \<exists>pre post. xs = pre @ b # post \<and> dev (bf b) = d \<and> blockno (bf b) = k \<and>
     (\<forall>x\<in>set pre. \<not> (dev (bf x) = d \<and> blockno (bf x) = k))"
proof (induction xs)
  case Nil
  then show ?case by simp
next
  case (Cons x xs)
  show ?case
  proof (cases "dev (bf x) = d \<and> blockno (bf x) = k")
    case True
    with Cons.prems have "x = b" by simp
    with True show ?thesis by (intro exI [of _ "[]"] exI [of _ xs]) simp
  next
    case False
    with Cons.prems have "scan_key bf d k xs = Some b" by auto
    from Cons.IH [OF this] obtain pre post where
      "xs = pre @ b # post" "dev (bf b) = d" "blockno (bf b) = k"
      "\<forall>x\<in>set pre. \<not> (dev (bf x) = d \<and> blockno (bf x) = k)"
      by blast
    with False show ?thesis by (intro exI [of _ "x # pre"] exI [of _ post]) simp
  qed
qed

subsection \<open>The eviction loop\<close>

lemma visits_Cons:
  "visits h (j # js) =
     (if j \<noteq> h then [Acquire (HashLock j), Release (HashLock j)] else []) @ visits h js"
  by (simp add: visits_def)

lemma visits_upt: "i < j \<Longrightarrow> visits h [i..<j] =
     (if i \<noteq> h then [Acquire (HashLock i), Release (HashLock i)] else []) @ visits h [Suc i..<j]"
  by (simp add: upt_conv_Cons visits_Cons)

lemma evict_skip: "i < NUM_BUCKET \<Longrightarrow> i = h \<Longrightarrow> evict d k h i s = evict d k h (i + 1) s"
  by (subst evict.simps) simp

lemma evict_found:
  "i < NUM_BUCKET \<Longrightarrow> i \<noteq> h \<Longrightarrow> scan_free (bufs s) (rev (head s i)) = Some b \<Longrightarrow>
   evict d k h i s =
     (Some b, recycle d k h b s,
      [Acquire (HashLock i), Release (HashLock h), Release (HashLock i), Release BcacheLock])"
  by (subst evict.simps) simp

lemma evict_next:
  "i < NUM_BUCKET \<Longrightarrow> i \<noteq> h \<Longrightarrow> scan_free (bufs s) (rev (head s i)) = None \<Longrightarrow>
   evict d k h i s =
     (case evict d k h (i + 1) s of
        (r, s', tr) \<Rightarrow> (r, s', Acquire (HashLock i) # Release (HashLock i) # tr))"
  by (subst evict.simps) simp

lemma evict_end: "\<not> i < NUM_BUCKET \<Longrightarrow> evict d k h i s = (None, s, [])"
  by (subst evict.simps) simp

lemma evict_None:
  "evict d k h i s = (None, s', tr) \<Longrightarrow>
   s' = s \<and>
   (\<forall>m. i \<le> m \<and> m < NUM_BUCKET \<and> m \<noteq> h \<longrightarrow> scan_free (bufs s) (rev (head s m)) = None) \<and>
   tr = visits h [i..<NUM_BUCKET]"
proof (induction d k h i s arbitrary: s' tr rule: evict.induct)
  case (1 d k h i s)
  show ?case
  proof (cases "i < NUM_BUCKET")
    case False
    with "1.prems" show ?thesis by (auto simp: evict_end visits_def)
  next
    case lt: True
    show ?thesis
    proof (cases "i = h")
      case True
      with lt "1.prems" have e: "evict d k h (i + 1) s = (None, s', tr)"
        by (simp add: evict_skip)
      from "1.IH"(1) [OF lt True e] have
        a: "s' = s" and
        b: "\<forall>m. i + 1 \<le> m \<and> m < NUM_BUCKET \<and> m \<noteq> h \<longrightarrow> scan_free (bufs s) (rev (head s m)) = None"
        and c: "tr = visits h [i + 1..<NUM_BUCKET]"
        by blast+
      have "\<forall>m. i \<le> m \<and> m < NUM_BUCKET \<and> m \<noteq> h \<longrightarrow> scan_free (bufs s) (rev (head s m)) = None"
      proof (intro allI impI)
        fix m assume "i \<le> m \<and> m < NUM_BUCKET \<and> m \<noteq> h"
        with True have "i + 1 \<le> m \<and> m < NUM_BUCKET \<and> m \<noteq> h" by auto
        with b show "scan_free (bufs s) (rev (head s m)) = None" by blast
      qed
      moreover have "tr = visits h [i..<NUM_BUCKET]"
        using c True lt by (simp add: visits_upt)
      ultimately show ?thesis using a by blast
    next
      case ne: False
      show ?thesis
      proof (cases "scan_free (bufs s) (rev (head s i))")
        case (Some b)
        with lt ne "1.prems" show ?thesis by (simp add: evict_found)
      next
        case None
        obtain r s1 tr1 where e: "evict d k h (i + 1) s = (r, s1, tr1)"
          by (cases "evict d k h (i + 1) s") auto
        with lt ne None "1.prems" have r: "r = None" and s1: "s1 = s'"
          and tr: "tr = Acquire (HashLock i) # Release (HashLock i) # tr1"
          by (simp_all add: evict_next)
        from "1.IH"(2) [OF lt ne None] e r s1 have
          a: "s' = s" and
          b: "\<forall>m. i + 1 \<le> m \<and> m < NUM_BUCKET \<and> m \<noteq> h \<longrightarrow> scan_free (bufs s) (rev (head s m)) = None"
          and c: "tr1 = visits h [i + 1..<NUM_BUCKET]"
          by blast+
        have "\<forall>m. i \<le> m \<and> m < NUM_BUCKET \<and> m \<noteq> h \<longrightarrow> scan_free (bufs s) (rev (head s m)) = None"
        proof (intro allI impI)
          fix m assume m: "i \<le> m \<and> m < NUM_BUCKET \<and> m \<noteq> h"
          show "scan_free (bufs s) (rev (head s m)) = None"
          proof (cases "m = i")
            case True
            with None show ?thesis by simp
          next
            case False
            with m have "i + 1 \<le> m \<and> m < NUM_BUCKET \<and> m \<noteq> h" by auto
            with b show ?thesis by blast
          qed
        qed
        moreover have "tr = visits h [i..<NUM_BUCKET]"
          using c tr ne lt by (simp add: visits_upt)
        ultimately show ?thesis using a by blast
      qed
    qed
  qed
qed

lemma evict_Some:
  "evict d k h i s = (Some b, s', tr) \<Longrightarrow>
   \<exists>j. i \<le> j \<and> j < NUM_BUCKET \<and> j \<noteq> h \<and>
     (\<forall>m. i \<le> m \<and> m < j \<and> m \<noteq> h \<longrightarrow> scan_free (bufs s) (rev (head s m)) = None) \<and>
     scan_free (bufs s) (rev (head s j)) = Some b \<and>
     s' = recycle d k h b s \<and>
     tr = visits h [i..<j] @
          [Acquire (HashLock j), Release (HashLock h), Release (HashLock j), Release BcacheLock]"
proof (induction d k h i s arbitrary: s' tr rule: evict.induct)
  case (1 d k h i s)
  show ?case
  proof (cases "i < NUM_BUCKET")
    case False
    with "1.prems" show ?thesis by (simp add: evict_end)
  next
    case lt: True
    show ?thesis
    proof (cases "i = h")
      case True
      with lt "1.prems" have e: "evict d k h (i + 1) s = (Some b, s', tr)"
        by (simp add: evict_skip)
      from "1.IH"(1) [OF lt True e] obtain j where
        j: "i + 1 \<le> j" "j < NUM_BUCKET" "j \<noteq> h"
          "\<forall>m. i + 1 \<le> m \<and> m < j \<and> m \<noteq> h \<longrightarrow> scan_free (bufs s) (rev (head s m)) = None"
          "scan_free (bufs s) (rev (head s j)) = Some b" "s' = recycle d k h b s"
          "tr = visits h [i + 1..<j] @
            [Acquire (HashLock j), Release (HashLock h), Release (HashLock j), Release BcacheLock]"
        by blast
      have "\<forall>m. i \<le> m \<and> m < j \<and> m \<noteq> h \<longrightarrow> scan_free (bufs s) (rev (head s m)) = None"
      proof (intro allI impI)
        fix m assume "i \<le> m \<and> m < j \<and> m \<noteq> h"
        with True have "i + 1 \<le> m \<and> m < j \<and> m \<noteq> h" by auto
        with j(4) show "scan_free (bufs s) (rev (head s m)) = None" by blast
      qed
      moreover have "tr = visits h [i..<j] @
            [Acquire (HashLock j), Release (HashLock h), Release (HashLock j), Release BcacheLock]"
        using j(1,7) True by (simp add: visits_upt)
      moreover have "i \<le> j" using j(1) by simp
      ultimately show ?thesis using j(2,3,5,6) by blast
    next
      case ne: False
      show ?thesis
      proof (cases "scan_free (bufs s) (rev (head s i))")
        case (Some b')
        with lt ne "1.prems" have "b' = b" "s' = recycle d k h b s"
          "tr = [Acquire (HashLock i), Release (HashLock h), Release (HashLock i), Release BcacheLock]"
          by (auto simp: evict_found)
        with Some lt ne show ?thesis
          by (intro exI [of _ i]) (auto simp: visits_def)
      next
        case None
        obtain r s1 tr1 where e: "evict d k h (i + 1) s = (r, s1, tr1)"
          by (cases "evict d k h (i + 1) s") auto
        with lt ne None "1.prems" have r: "r = Some b" and s1: "s1 = s'"
          and tr: "tr = Acquire (HashLock i) # Release (HashLock i) # tr1"
          by (simp_all add: evict_next)
        from e r s1 have e': "evict d k h (i + 1) s = (Some b, s', tr1)" by simp
        from "1.IH"(2) [OF lt ne None e'] obtain j where
          j: "i + 1 \<le> j" "j < NUM_BUCKET" "j \<noteq> h"
            "\<forall>m. i + 1 \<le> m \<and> m < j \<and> m \<noteq> h \<longrightarrow> scan_free (bufs s) (rev (head s m)) = None"
            "scan_free (bufs s) (rev (head s j)) = Some b" "s' = recycle d k h b s"
            "tr1 = visits h [i + 1..<j] @
              [Acquire (HashLock j), Release (HashLock h), Release (HashLock j), Release BcacheLock]"
          by blast
        have "\<forall>m. i \<le> m \<and> m < j \<and> m \<noteq> h \<longrightarrow> scan_free (bufs s) (rev (head s m)) = None"
        proof (intro allI impI)
          fix m assume m: "i \<le> m \<and> m < j \<and> m \<noteq> h"
          show "scan_free (bufs s) (rev (head s m)) = None"
          proof (cases "m = i")
            case True
            with None show ?thesis by simp
          next
            case False
            with m have "i + 1 \<le> m \<and> m < j \<and> m \<noteq> h" by auto
            with j(4) show ?thesis by blast
          qed
        qed
        moreover have "tr = visits h [i..<j] @
            [Acquire (HashLock j), Release (HashLock h), Release (HashLock j), Release BcacheLock]"
          using j(1,7) tr ne by (simp add: visits_upt)
        moreover have "i \<le> j" using j(1) by simp
        ultimately show ?thesis using j(2,3,5,6) by blast
      qed
    qed
  qed
qed

text \<open>The loop finds a victim exactly when some bucket other than the target has one.\<close>

lemma evict_total:
  "(\<exists>s' tr. evict d k h i s = (None, s', tr)) \<longleftrightarrow>
   (\<forall>m. i \<le> m \<and> m < NUM_BUCKET \<and> m \<noteq> h \<longrightarrow> scan_free (bufs s) (rev (head s m)) = None)"
proof
  assume "\<exists>s' tr. evict d k h i s = (None, s', tr)"
  then show "\<forall>m. i \<le> m \<and> m < NUM_BUCKET \<and> m \<noteq> h \<longrightarrow> scan_free (bufs s) (rev (head s m)) = None"
    using evict_None by blast
next
  assume a: "\<forall>m. i \<le> m \<and> m < NUM_BUCKET \<and> m \<noteq> h \<longrightarrow> scan_free (bufs s) (rev (head s m)) = None"
  obtain r s' tr where e: "evict d k h i s = (r, s', tr)" by (cases "evict d k h i s") auto
  show "\<exists>s' tr. evict d k h i s = (None, s', tr)"
  proof (cases r)
    case None
    with e show ?thesis by blast
  next
    case (Some b)
    with e have "evict d k h i s = (Some b, s', tr)" by simp
    from evict_Some [OF this] obtain j where
      "i \<le> j" "j < NUM_BUCKET" "j \<noteq> h" "scan_free (bufs s) (rev (head s j)) = Some b"
      by blast
    with a show ?thesis by auto
  qed
qed

subsection \<open>Lock discipline of the traces\<close>

lemma held_after_append: "held_after H (xs @ ys) = held_after (held_after H xs) ys"
  by (induction H xs rule: held_after.induct) auto

lemma one_donor_from_append:
  "one_donor_from h H (xs @ ys) \<longleftrightarrow>
   one_donor_from h H xs \<and> one_donor_from h (held_after H xs) ys"
proof (induction xs arbitrary: H)
  case Nil
  then show ?case by (cases ys) auto
next
  case (Cons e xs)
  show ?case
    using Cons.IH [of "held_after H [e]"]
    by (cases e) auto
qed

lemma held_after_visits: "held_after H (visits h js) = H"
proof (induction js arbitrary: H)
  case Nil
  then show ?case by (simp add: visits_def)
next
  case (Cons j js)
  then show ?case by (simp add: visits_Cons)
qed

lemma one_donor_from_visits:
  "donors h H = [] \<Longrightarrow> one_donor_from h H (visits h js)"
proof (induction js)
  case Nil
  then show ?case by (simp add: visits_def)
next
  case (Cons j js)
  then show ?case by (auto simp: visits_Cons donors_def)
qed

lemma evict_trace_discipline:
  "i \<noteq> h \<Longrightarrow>
   one_donor_at_a_time h
     ([Acquire BcacheLock, Acquire (HashLock h)] @ visits h js @
      [Acquire (HashLock i), Release (HashLock h), Release (HashLock i), Release BcacheLock])"
proof -
  assume ne: "i \<noteq> h"
  let ?H = "[HashLock h, BcacheLock]"
  have d: "donors h ?H = []" by (simp add: donors_def)
  have a: "one_donor_from h ?H (visits h js)" using d by (rule one_donor_from_visits)
  have b: "one_donor_from h ?H
     [Acquire (HashLock i), Release (HashLock h), Release (HashLock i), Release BcacheLock]"
    using ne by (simp add: donors_def)
  have "one_donor_from h ?H (visits h js @
      [Acquire (HashLock i), Release (HashLock h), Release (HashLock i), Release BcacheLock])"
    using a b by (simp add: one_donor_from_append held_after_visits)
  then show ?thesis by (simp add: one_donor_at_a_time_def donors_def)
qed

lemma panic_trace_discipline:
  "one_donor_at_a_time h ([Acquire BcacheLock, Acquire (HashLock h)] @ visits h js)"
proof -
  let ?H = "[HashLock h, BcacheLock]"
  have d: "donors h ?H = []" by (simp add: donors_def)
  have a: "one_donor_from h ?H (visits h js)" using d by (rule one_donor_from_visits)
  then show ?thesis by (simp add: one_donor_at_a_time_def donors_def)
qed

subsection \<open>Well-formed caches\<close>

lemma distinct_concat_map_distinct:
  "distinct (concat (map f js)) \<Longrightarrow> i \<in> set js \<Longrightarrow> distinct (f i)"
  by (induction js) auto

lemma distinct_concat_map_disjoint:
  "distinct (concat (map f js)) \<Longrightarrow> distinct js \<Longrightarrow> i \<in> set js \<Longrightarrow> j \<in> set js \<Longrightarrow>
   i \<noteq> j \<Longrightarrow> set (f i) \<inter> set (f j) = {}"
  by (induction js) auto

lemma wf_distinct: "wf_bcache s \<Longrightarrow> i < NUM_BUCKET \<Longrightarrow> distinct (head s i)"
  using distinct_concat_map_distinct [of "head s" "[0..<NUM_BUCKET]" i]
  by (simp add: wf_bcache_def)

lemma wf_disjoint:
  "wf_bcache s \<Longrightarrow> i < NUM_BUCKET \<Longrightarrow> j < NUM_BUCKET \<Longrightarrow> i \<noteq> j \<Longrightarrow>
   set (head s i) \<inter> set (head s j) = {}"
  using distinct_concat_map_disjoint [of "head s" "[0..<NUM_BUCKET]" i j]
  by (simp add: wf_bcache_def)

lemma wf_notin:
  "wf_bcache s \<Longrightarrow> i < NUM_BUCKET \<Longrightarrow> j < NUM_BUCKET \<Longrightarrow> i \<noteq> j \<Longrightarrow>
   b \<in> set (head s i) \<Longrightarrow> b \<notin> set (head s j)"
  using wf_disjoint [of s i j] by blast

lemma hash_val_less: "hash_val k < NUM_BUCKET"
  by (simp add: hash_val_def NUM_BUCKET_def)

lemma bufs_recycle:
  "bufs (recycle d k h b s) =
     (bufs s)(b := (bufs s b)\<lparr>dev := d, blockno := k, valid := 0, refcnt := 1\<rparr>)"
  by (simp add: recycle_def buf_upd_def link_front_def unlink_def)

lemma head_recycle:
  "head (recycle d k h b s) m =
     (if m = h then b # remove1 b (head s h) else remove1 b (head s m))"
  by (simp add: recycle_def buf_upd_def link_front_def unlink_def)

lemma head_recycle_wf:
  assumes wf: "wf_bcache s" and i: "i < NUM_BUCKET" and h: "h < NUM_BUCKET" and ne: "i \<noteq> h"
    and b: "head s i = mru @ b # lru"
  shows "head (recycle d k h b s) i = mru @ lru"
    and "head (recycle d k h b s) h = b # head s h"
    and "\<forall>j<NUM_BUCKET. j \<noteq> i \<and> j \<noteq> h \<longrightarrow> head (recycle d k h b s) j = head s j"
proof -
  have bi: "b \<in> set (head s i)" using b by simp
  have "distinct (mru @ b # lru)" using wf_distinct [OF wf i] b by simp
  then have "b \<notin> set mru" by simp
  then have "remove1 b (mru @ b # lru) = mru @ lru" by (simp add: remove1_append)
  then show "head (recycle d k h b s) i = mru @ lru" using ne b by (simp add: head_recycle)
  have "b \<notin> set (head s h)" using wf i h ne bi by (rule wf_notin)
  then show "head (recycle d k h b s) h = b # head s h"
    by (simp add: head_recycle remove1_idem)
  show "\<forall>j<NUM_BUCKET. j \<noteq> i \<and> j \<noteq> h \<longrightarrow> head (recycle d k h b s) j = head s j"
  proof (intro allI impI)
    fix j assume j: "j < NUM_BUCKET" and "j \<noteq> i \<and> j \<noteq> h"
    then have "i \<noteq> j" "j \<noteq> h" by auto
    have "b \<notin> set (head s j)" using wf i j \<open>i \<noteq> j\<close> bi by (rule wf_notin)
    then show "head (recycle d k h b s) j = head s j"
      using \<open>j \<noteq> h\<close> by (simp add: head_recycle remove1_idem)
  qed
qed

subsection \<open>Eviction\<close>

lemma bget_slow_miss:
  "scan_key (bufs s) d k (head s (hash_val k)) = None \<Longrightarrow>
   bget_slow ticks d k s =
     (case evict d k (hash_val k) 0 s of
        (Some b, s', tr) \<Rightarrow>
          (Inr b, s', Acquire BcacheLock # Acquire (HashLock (hash_val k)) # tr)
      | (None, s', tr) \<Rightarrow>
          (Inl (Panic ''bget: no buffers''), s',
           Acquire BcacheLock # Acquire (HashLock (hash_val k)) # tr))"
  by (simp add: bget_slow_def Let_def)

lemma bget_slow_hit:
  "scan_key (bufs s) d k (head s (hash_val k)) = Some b \<Longrightarrow>
   bget_slow ticks d k s =
     (Inr b, take_ref ticks b s,
      [Acquire BcacheLock, Acquire (HashLock (hash_val k)), Release (HashLock (hash_val k)),
       Release BcacheLock])"
  by (simp add: bget_slow_def Let_def)

lemma no_free_iff:
  "scan_free bf (rev xs) = None \<longleftrightarrow> (\<forall>x\<in>set xs. refcnt (bf x) \<noteq> 0)"
  by (simp add: scan_free_None)

lemma last_free:
  assumes "scan_free bf (rev xs) = Some b"
  shows "\<exists>mru lru. xs = mru @ b # lru \<and> refcnt (bf b) = 0 \<and> (\<forall>x\<in>set lru. refcnt (bf x) \<noteq> 0)"
proof -
  from scan_free_Some [OF assms] obtain pre post where
    r: "rev xs = pre @ b # post" and z: "refcnt (bf b) = 0"
    and n: "\<forall>x\<in>set pre. refcnt (bf x) \<noteq> 0"
    by blast
  from r have "rev (rev xs) = rev (pre @ b # post)" by simp
  then have "xs = rev post @ b # rev pre" by simp
  with z n show ?thesis by (intro exI [of _ "rev post"] exI [of _ "rev pre"]) simp
qed

text \<open>
  Claim C1. Let the cache be well formed and the key absent from the target bucket
  \<open>h\<close>, so that the re-scan of line 105 misses. If the call returns a buffer \<open>b\<close>, then
  there is a bucket \<open>i\<close> other than \<open>h\<close> such that: no bucket before \<open>i\<close>, other
  than \<open>h\<close>, holds a buffer with \<open>refcnt\<close> 0; \<open>b\<close> is on bucket \<open>i\<close>, has \<open>refcnt\<close> 0, and
  no buffer behind it (towards the least recently used end) has; afterwards \<open>b\<close> is gone
  from bucket \<open>i\<close>, it is the first buffer of bucket \<open>h\<close>, the other buckets are as
  before, and \<open>b\<close> has the new key, \<open>valid\<close> 0 and \<open>refcnt\<close> 1, every other field and every
  other buffer being unchanged. The locks are taken in the order global, target, then
  the buckets 0, 1, ... other than the target, each released before the next is taken,
  up to bucket \<open>i\<close>. If the call panics, every bucket other than \<open>h\<close> was visited and
  none holds a buffer with \<open>refcnt\<close> 0. In both cases at most one bucket lock other than
  the target's is held at any time.
\<close>

theorem bget_eviction:
  assumes wf: "wf_bcache s"
    and miss: "scan_key (bufs s) d k (head s (hash_val k)) = None"
  shows
    "(\<forall>b s' tr. bget_slow ticks d k s = (Inr b, s', tr) \<longrightarrow>
        (\<exists>i mru lru. i < NUM_BUCKET \<and> i \<noteq> hash_val k \<and>
           (\<forall>j<i. j \<noteq> hash_val k \<longrightarrow> (\<forall>x\<in>set (head s j). refcnt (bufs s x) \<noteq> 0)) \<and>
           head s i = mru @ b # lru \<and> refcnt (bufs s b) = 0 \<and>
           (\<forall>x\<in>set lru. refcnt (bufs s x) \<noteq> 0) \<and>
           head s' i = mru @ lru \<and>
           head s' (hash_val k) = b # head s (hash_val k) \<and>
           (\<forall>j<NUM_BUCKET. j \<noteq> i \<and> j \<noteq> hash_val k \<longrightarrow> head s' j = head s j) \<and>
           bufs s' = (bufs s)(b := (bufs s b)\<lparr>dev := d, blockno := k, valid := 0, refcnt := 1\<rparr>) \<and>
           tr = [Acquire BcacheLock, Acquire (HashLock (hash_val k))] @
                visits (hash_val k) [0..<i] @
                [Acquire (HashLock i), Release (HashLock (hash_val k)), Release (HashLock i),
                 Release BcacheLock]) \<and>
        one_donor_at_a_time (hash_val k) tr) \<and>
     (\<forall>e s' tr. bget_slow ticks d k s = (Inl e, s', tr) \<longrightarrow>
        (\<forall>j<NUM_BUCKET. j \<noteq> hash_val k \<longrightarrow> (\<forall>x\<in>set (head s j). refcnt (bufs s x) \<noteq> 0)) \<and>
        s' = s \<and>
        tr = [Acquire BcacheLock, Acquire (HashLock (hash_val k))] @
             visits (hash_val k) [0..<NUM_BUCKET] \<and>
        one_donor_at_a_time (hash_val k) tr)"
proof (rule conjI)
  show "(\<forall>b s' tr. bget_slow ticks d k s = (Inr b, s', tr) \<longrightarrow>
        (\<exists>i mru lru. i < NUM_BUCKET \<and> i \<noteq> hash_val k \<and>
           (\<forall>j<i. j \<noteq> hash_val k \<longrightarrow> (\<forall>x\<in>set (head s j). refcnt (bufs s x) \<noteq> 0)) \<and>
           head s i = mru @ b # lru \<and> refcnt (bufs s b) = 0 \<and>
           (\<forall>x\<in>set lru. refcnt (bufs s x) \<noteq> 0) \<and>
           head s' i = mru @ lru \<and>
           head s' (hash_val k) = b # head s (hash_val k) \<and>
           (\<forall>j<NUM_BUCKET. j \<noteq> i \<and> j \<noteq> hash_val k \<longrightarrow> head s' j = head s j) \<and>
           bufs s' = (bufs s)(b := (bufs s b)\<lparr>dev := d, blockno := k, valid := 0, refcnt := 1\<rparr>) \<and>
           tr = [Acquire BcacheLock, Acquire (HashLock (hash_val k))] @
                visits (hash_val k) [0..<i] @
                [Acquire (HashLock i), Release (HashLock (hash_val k)), Release (HashLock i),
                 Release BcacheLock]) \<and>
        one_donor_at_a_time (hash_val k) tr)"
  proof (intro allI impI)
  fix b s' tr
  assume r: "bget_slow ticks d k s = (Inr b, s', tr)"
  let ?h = "hash_val k"
  obtain r1 s1 tr1 where e: "evict d k ?h 0 s = (r1, s1, tr1)"
    by (cases "evict d k ?h 0 s") auto
  from r e have r1: "r1 = Some b" and s1: "s1 = s'"
    and tr: "tr = Acquire BcacheLock # Acquire (HashLock ?h) # tr1"
    by (auto simp: bget_slow_miss [OF miss] split: option.splits)
  from e r1 s1 have "evict d k ?h 0 s = (Some b, s', tr1)" by simp
  from evict_Some [OF this] obtain i where
    i: "i < NUM_BUCKET" "i \<noteq> ?h"
    and before: "\<forall>m. 0 \<le> m \<and> m < i \<and> m \<noteq> ?h \<longrightarrow> scan_free (bufs s) (rev (head s m)) = None"
    and found: "scan_free (bufs s) (rev (head s i)) = Some b"
    and s': "s' = recycle d k ?h b s"
    and tr1: "tr1 = visits ?h [0..<i] @
          [Acquire (HashLock i), Release (HashLock ?h), Release (HashLock i), Release BcacheLock]"
    by blast
  from last_free [OF found] obtain mru lru where
    split: "head s i = mru @ b # lru" and z: "refcnt (bufs s b) = 0"
    and behind: "\<forall>x\<in>set lru. refcnt (bufs s x) \<noteq> 0"
    by blast
  note hd = head_recycle_wf [OF wf i(1) hash_val_less i(2) split, of d k]
  have earlier: "\<forall>j<i. j \<noteq> ?h \<longrightarrow> (\<forall>x\<in>set (head s j). refcnt (bufs s x) \<noteq> 0)"
    using before by (simp add: no_free_iff)
  have trace: "tr = [Acquire BcacheLock, Acquire (HashLock ?h)] @ visits ?h [0..<i] @
                [Acquire (HashLock i), Release (HashLock ?h), Release (HashLock i),
                 Release BcacheLock]"
    using tr tr1 by simp
  have disc: "one_donor_at_a_time ?h tr"
    unfolding trace using i(2) by (rule evict_trace_discipline)
  have "\<exists>i mru lru. i < NUM_BUCKET \<and> i \<noteq> ?h \<and>
           (\<forall>j<i. j \<noteq> ?h \<longrightarrow> (\<forall>x\<in>set (head s j). refcnt (bufs s x) \<noteq> 0)) \<and>
           head s i = mru @ b # lru \<and> refcnt (bufs s b) = 0 \<and>
           (\<forall>x\<in>set lru. refcnt (bufs s x) \<noteq> 0) \<and>
           head s' i = mru @ lru \<and>
           head s' ?h = b # head s ?h \<and>
           (\<forall>j<NUM_BUCKET. j \<noteq> i \<and> j \<noteq> ?h \<longrightarrow> head s' j = head s j) \<and>
           bufs s' = (bufs s)(b := (bufs s b)\<lparr>dev := d, blockno := k, valid := 0, refcnt := 1\<rparr>) \<and>
           tr = [Acquire BcacheLock, Acquire (HashLock ?h)] @
                visits ?h [0..<i] @
                [Acquire (HashLock i), Release (HashLock ?h), Release (HashLock i),
                 Release BcacheLock]"
    using i earlier split z behind hd trace unfolding s'
    by (intro exI [of _ i] exI [of _ mru] exI [of _ lru]) (simp add: bufs_recycle)
  from this disc show "(\<exists>i mru lru. i < NUM_BUCKET \<and> i \<noteq> ?h \<and>
           (\<forall>j<i. j \<noteq> ?h \<longrightarrow> (\<forall>x\<in>set (head s j). refcnt (bufs s x) \<noteq> 0)) \<and>
           head s i = mru @ b # lru \<and> refcnt (bufs s b) = 0 \<and>
           (\<forall>x\<in>set lru. refcnt (bufs s x) \<noteq> 0) \<and>
           head s' i = mru @ lru \<and>
           head s' ?h = b # head s ?h \<and>
           (\<forall>j<NUM_BUCKET. j \<noteq> i \<and> j \<noteq> ?h \<longrightarrow> head s' j = head s j) \<and>
           bufs s' = (bufs s)(b := (bufs s b)\<lparr>dev := d, blockno := k, valid := 0, refcnt := 1\<rparr>) \<and>
           tr = [Acquire BcacheLock, Acquire (HashLock ?h)] @
                visits ?h [0..<i] @
                [Acquire (HashLock i), Release (HashLock ?h), Release (HashLock i),
                 Release BcacheLock]) \<and>
        one_donor_at_a_time ?h tr"
    by (rule conjI)
  qed
next
  show "(\<forall>e s' tr. bget_slow ticks d k s = (Inl e, s', tr) \<longrightarrow>
        (\<forall>j<NUM_BUCKET. j \<noteq> hash_val k \<longrightarrow> (\<forall>x\<in>set (head s j). refcnt (bufs s x) \<noteq> 0)) \<and>
        s' = s \<and>
        tr = [Acquire BcacheLock, Acquire (HashLock (hash_val k))] @
             visits (hash_val k) [0..<NUM_BUCKET] \<and>
        one_donor_at_a_time (hash_val k) tr)"
  proof (intro allI impI)
  fix e s' tr
  assume r: "bget_slow ticks d k s = (Inl e, s', tr)"
  let ?h = "hash_val k"
  obtain r1 s1 tr1 where e: "evict d k ?h 0 s = (r1, s1, tr1)"
    by (cases "evict d k ?h 0 s") auto
  from r e have r1: "r1 = None" and s1: "s1 = s'"
    and tr: "tr = Acquire BcacheLock # Acquire (HashLock ?h) # tr1"
    by (auto simp: bget_slow_miss [OF miss] split: option.splits)
  from e r1 s1 have "evict d k ?h 0 s = (None, s', tr1)" by simp
  from evict_None [OF this] have same: "s' = s"
    and none: "\<forall>m. 0 \<le> m \<and> m < NUM_BUCKET \<and> m \<noteq> ?h \<longrightarrow> scan_free (bufs s) (rev (head s m)) = None"
    and tr1: "tr1 = visits ?h [0..<NUM_BUCKET]"
    by blast+
  have all: "\<forall>j<NUM_BUCKET. j \<noteq> ?h \<longrightarrow> (\<forall>x\<in>set (head s j). refcnt (bufs s x) \<noteq> 0)"
    using none by (simp add: no_free_iff)
  have trace: "tr = [Acquire BcacheLock, Acquire (HashLock ?h)] @ visits ?h [0..<NUM_BUCKET]"
    using tr tr1 by simp
  have disc: "one_donor_at_a_time ?h tr"
    unfolding trace by (rule panic_trace_discipline)
  from all same trace disc
  show "(\<forall>j<NUM_BUCKET. j \<noteq> ?h \<longrightarrow> (\<forall>x\<in>set (head s j). refcnt (bufs s x) \<noteq> 0)) \<and>
        s' = s \<and>
        tr = [Acquire BcacheLock, Acquire (HashLock ?h)] @ visits ?h [0..<NUM_BUCKET] \<and>
        one_donor_at_a_time ?h tr"
    by blast
  qed
qed

lemma hash_val_2: "hash_val 2 = 2"
  by (simp add: hash_val_def NUM_BUCKET_def)

lemma hash_val_26: "hash_val 26 = 0"
  by (simp add: hash_val_def NUM_BUCKET_def)

lemma wf_bcache_two: "wf_bcache bcache_two"
  by code_simp

lemma wf_bcache_two_held: "wf_bcache bcache_two_held"
  by code_simp

theorem bget_eviction_witness:
  "wf_bcache bcache_two \<and>
   scan_key (bufs bcache_two) 0 2 (head bcache_two (hash_val 2)) = None \<and>
   fst (bget_slow 1 0 2 bcache_two) = Inr 0 \<and>
   head (fst (snd (bget_slow 1 0 2 bcache_two))) (hash_val 2) = 0 # head bcache_two (hash_val 2) \<and>
   one_donor_at_a_time (hash_val 2) (snd (snd (bget_slow 1 0 2 bcache_two))) \<and>
   wf_bcache bcache_two_held \<and>
   scan_key (bufs bcache_two_held) 0 26 (head bcache_two_held (hash_val 26)) = None \<and>
   fst (bget_slow 2 0 26 bcache_two_held) = Inl (Panic ''bget: no buffers'') \<and>
   fst (snd (bget_slow 2 0 26 bcache_two_held)) = bcache_two_held \<and>
   one_donor_at_a_time (hash_val 26) (snd (snd (bget_slow 2 0 26 bcache_two_held)))"
proof -
  have m1: "scan_key (bufs bcache_two) 0 2 (head bcache_two (hash_val 2)) = None"
    by code_simp
  have r1: "fst (bget_slow 1 0 2 bcache_two) = Inr 0"
    by code_simp
  then have e1: "bget_slow 1 0 2 bcache_two =
      (Inr 0, fst (snd (bget_slow 1 0 2 bcache_two)), snd (snd (bget_slow 1 0 2 bcache_two)))"
    by (cases "bget_slow 1 0 2 bcache_two") simp
  from bget_eviction [OF wf_bcache_two m1, of 1, THEN conjunct1, rule_format, OF e1]
  have a: "head (fst (snd (bget_slow 1 0 2 bcache_two))) (hash_val 2)
             = 0 # head bcache_two (hash_val 2)"
    and b: "one_donor_at_a_time (hash_val 2) (snd (snd (bget_slow 1 0 2 bcache_two)))"
    by blast+
  have m2: "scan_key (bufs bcache_two_held) 0 26 (head bcache_two_held (hash_val 26)) = None"
    by code_simp
  have r2: "fst (bget_slow 2 0 26 bcache_two_held) = Inl (Panic ''bget: no buffers'')"
    by code_simp
  then have e2: "bget_slow 2 0 26 bcache_two_held =
      (Inl (Panic ''bget: no buffers''), fst (snd (bget_slow 2 0 26 bcache_two_held)),
       snd (snd (bget_slow 2 0 26 bcache_two_held)))"
    by (cases "bget_slow 2 0 26 bcache_two_held") simp
  from bget_eviction [OF wf_bcache_two_held m2, of 2, THEN conjunct2, rule_format, OF e2]
  have c: "fst (snd (bget_slow 2 0 26 bcache_two_held)) = bcache_two_held"
    and d: "one_donor_at_a_time (hash_val 26) (snd (snd (bget_slow 2 0 26 bcache_two_held)))"
    by blast+
  show ?thesis
    using wf_bcache_two m1 r1 a b wf_bcache_two_held m2 r2 c d by blast
qed

lemma bget_choose_hit:
  "scan_key (bufs s) d k (head s (hash_val k)) = Some b \<Longrightarrow>
   bget_choose ticks d k s =
     (Inr b, take_ref ticks b s,
      [Acquire (HashLock (hash_val k)), Release (HashLock (hash_val k))])"
  by (simp add: bget_choose_def bget_fast_def Let_def)

lemma bget_choose_miss:
  "scan_key (bufs s) d k (head s (hash_val k)) = None \<Longrightarrow>
   bget_choose ticks d k s =
     (case bget_slow ticks d k s of
        (r, s', tr) \<Rightarrow>
          (r, s', [Acquire (HashLock (hash_val k)), Release (HashLock (hash_val k))] @ tr))"
  by (simp add: bget_choose_def bget_fast_def Let_def)

lemma bget_Panicked_iff:
  "(\<exists>e s' tr. bget pid ticks d k s = (Panicked e, s', tr)) \<longleftrightarrow>
   (\<exists>e s' tr. bget_choose ticks d k s = (Inl e, s', tr))"
proof -
  obtain r s1 tr1 where c: "bget_choose ticks d k s = (r, s1, tr1)"
    by (cases "bget_choose ticks d k s") auto
  show ?thesis
  proof (cases r)
    case (Inl e)
    with c show ?thesis by (simp add: bget_def)
  next
    case (Inr b)
    with c show ?thesis by (simp add: bget_def split: option.splits)
  qed
qed

lemma bget_choose_Inl_iff:
  "(\<exists>e s' tr. bget_choose ticks d k s = (Inl e, s', tr)) \<longleftrightarrow>
   scan_key (bufs s) d k (head s (hash_val k)) = None \<and>
   (\<exists>s' tr. evict d k (hash_val k) 0 s = (None, s', tr))"
proof (cases "scan_key (bufs s) d k (head s (hash_val k))")
  case (Some b)
  then show ?thesis by (simp add: bget_choose_hit)
next
  case None
  obtain r s1 tr1 where e: "evict d k (hash_val k) 0 s = (r, s1, tr1)"
    by (cases "evict d k (hash_val k) 0 s") auto
  show ?thesis
    using None e
    by (cases r) (simp_all add: bget_choose_miss bget_slow_miss)
qed

text \<open>
  Claim C2, as the code has it. \<open>bget\<close> panics exactly when the key is not on the
  target bucket and no bucket other than the target holds a buffer with \<open>refcnt\<close> 0.
  The buffers of the target bucket are looked at for the key only, never for a free one.
\<close>

theorem bget_panic_iff:
  "(\<exists>e s' tr. bget pid ticks d k s = (Panicked e, s', tr)) \<longleftrightarrow>
   (\<forall>x\<in>set (head s (hash_val k)). \<not> (dev (bufs s x) = d \<and> blockno (bufs s x) = k)) \<and>
   (\<forall>j<NUM_BUCKET. j \<noteq> hash_val k \<longrightarrow> (\<forall>x\<in>set (head s j). refcnt (bufs s x) \<noteq> 0))"
proof -
  have "(\<exists>s' tr. evict d k (hash_val k) 0 s = (None, s', tr)) \<longleftrightarrow>
        (\<forall>j<NUM_BUCKET. j \<noteq> hash_val k \<longrightarrow> (\<forall>x\<in>set (head s j). refcnt (bufs s x) \<noteq> 0))"
    by (auto simp: evict_total no_free_iff)
  then show ?thesis
    by (simp add: bget_Panicked_iff bget_choose_Inl_iff scan_key_None)
qed

theorem bget_panic_iff_witness:
  "(\<exists>e s' tr. bget 2 2 0 26 bcache_two_held = (Panicked e, s', tr)) \<and>
   list_all (\<lambda>x. \<not> (dev (bufs bcache_two_held x) = 0 \<and> blockno (bufs bcache_two_held x) = 26))
     (head bcache_two_held (hash_val 26)) \<and>
   list_all (\<lambda>j. j = hash_val 26 \<or> list_all (\<lambda>x. refcnt (bufs bcache_two_held x) \<noteq> 0)
     (head bcache_two_held j)) [0..<NUM_BUCKET]"
proof -
  have a: "list_all (\<lambda>x. \<not> (dev (bufs bcache_two_held x) = 0 \<and> blockno (bufs bcache_two_held x) = 26))
     (head bcache_two_held (hash_val 26))"
    by code_simp
  have b: "list_all (\<lambda>j. j = hash_val 26 \<or> list_all (\<lambda>x. refcnt (bufs bcache_two_held x) \<noteq> 0)
     (head bcache_two_held j)) [0..<NUM_BUCKET]"
    by code_simp
  have "\<forall>j<NUM_BUCKET. j \<noteq> hash_val 26 \<longrightarrow>
      (\<forall>x\<in>set (head bcache_two_held j). refcnt (bufs bcache_two_held x) \<noteq> 0)"
    using b by (auto simp: list_all_iff)
  with a have "\<exists>e s' tr. bget 2 2 0 26 bcache_two_held = (Panicked e, s', tr)"
    using bget_panic_iff [of 2 2 0 26 bcache_two_held] by (simp add: list_all_iff)
  with a b show ?thesis by blast
qed

text \<open>
  The claim as worded fails: in the cache of two buffers, once buffer 1 has moved to
  bucket 0, a request for another block of bucket 0 panics although buffer 0, on the
  target bucket, has \<open>refcnt\<close> 0.
\<close>

theorem bget_panics_beside_free_buffer:
  "0 \<in> set (head bcache_two_held (hash_val 26)) \<and>
   refcnt (bufs bcache_two_held 0) = 0 \<and>
   fst (bget 2 2 0 26 bcache_two_held) = Panicked (Panic ''bget: no buffers'')"
  by code_simp

lemma bget_not_Panicked:
  assumes "bget pid ticks d k s = (r, s', tr)" and "r = Returned b \<or> r = Sleeping b"
  shows "\<exists>s1 tr1. bget_choose ticks d k s = (Inr b, s1, tr1) \<and> tr = tr1 @ [AcquireSleep b]"
proof -
  obtain r1 s1 tr1 where c: "bget_choose ticks d k s = (r1, s1, tr1)"
    by (cases "bget_choose ticks d k s") auto
  show ?thesis
  proof (cases r1)
    case (Inl e)
    with c assms show ?thesis by (auto simp: bget_def)
  next
    case (Inr b')
    with c assms show ?thesis by (auto simp: bget_def split: option.splits)
  qed
qed

text \<open>
  Claim C9, as the code has it. When the fast path and the re-scan miss and \<open>bget\<close> does
  not panic, the trace ends with: the donor lock taken while the global lock and the
  target lock (taken in this order) are held, then the target lock released, then the
  donor lock, then the global lock, and only then the call of \<open>acquiresleep\<close> on the
  victim, with no spin-lock held.
\<close>

theorem bget_release_order:
  assumes miss: "scan_key (bufs s) d k (head s (hash_val k)) = None"
    and run: "bget pid ticks d k s = (r, s', tr)"
    and ret: "r = Returned b \<or> r = Sleeping b"
  shows
    "\<exists>i pre. i < NUM_BUCKET \<and> i \<noteq> hash_val k \<and>
       tr = pre @ [Acquire (HashLock i), Release (HashLock (hash_val k)), Release (HashLock i),
                   Release BcacheLock, AcquireSleep b] \<and>
       held_after [] pre = [HashLock (hash_val k), BcacheLock] \<and>
       held_after [] (butlast tr) = []"
proof -
  let ?h = "hash_val k"
  from bget_not_Panicked [OF run ret] obtain s1 tr1 where
    c: "bget_choose ticks d k s = (Inr b, s1, tr1)" and tr: "tr = tr1 @ [AcquireSleep b]"
    by blast
  obtain r2 s2 tr2 where e: "evict d k ?h 0 s = (r2, s2, tr2)"
    by (cases "evict d k ?h 0 s") auto
  from c e have r2: "r2 = Some b"
    and tr1: "tr1 = [Acquire (HashLock ?h), Release (HashLock ?h), Acquire BcacheLock,
                     Acquire (HashLock ?h)] @ tr2"
    by (auto simp: bget_choose_miss [OF miss] bget_slow_miss [OF miss] split: option.splits)
  from e r2 have "evict d k ?h 0 s = (Some b, s2, tr2)" by simp
  from evict_Some [OF this] obtain i where
    i: "i < NUM_BUCKET" "i \<noteq> ?h"
    and tr2: "tr2 = visits ?h [0..<i] @
          [Acquire (HashLock i), Release (HashLock ?h), Release (HashLock i), Release BcacheLock]"
    by blast
  let ?pre = "[Acquire (HashLock ?h), Release (HashLock ?h), Acquire BcacheLock,
               Acquire (HashLock ?h)] @ visits ?h [0..<i]"
  have shape: "tr = ?pre @ [Acquire (HashLock i), Release (HashLock ?h), Release (HashLock i),
                   Release BcacheLock, AcquireSleep b]"
    using tr tr1 tr2 by simp
  have pre: "held_after [] ?pre = [HashLock ?h, BcacheLock]"
    by (simp add: held_after_append held_after_visits)
  have "butlast tr = ?pre @ [Acquire (HashLock i), Release (HashLock ?h), Release (HashLock i),
                   Release BcacheLock]"
    unfolding shape by (simp add: butlast_append)
  then have "held_after [] (butlast tr) = []"
    using i(2) by (simp add: held_after_append held_after_visits)
  with i shape pre show ?thesis by blast
qed

theorem bget_release_order_witness:
  "scan_key (bufs bcache_two) 0 2 (head bcache_two (hash_val 2)) = None \<and>
   fst (bget 1 1 0 2 bcache_two) = Returned 0 \<and>
   (\<exists>i pre. i < NUM_BUCKET \<and> i \<noteq> hash_val 2 \<and>
       snd (snd (bget 1 1 0 2 bcache_two)) =
         pre @ [Acquire (HashLock i), Release (HashLock (hash_val 2)), Release (HashLock i),
                Release BcacheLock, AcquireSleep 0] \<and>
       held_after [] pre = [HashLock (hash_val 2), BcacheLock] \<and>
       held_after [] (butlast (snd (snd (bget 1 1 0 2 bcache_two)))) = [])"
proof -
  have m: "scan_key (bufs bcache_two) 0 2 (head bcache_two (hash_val 2)) = None"
    by code_simp
  have r: "fst (bget 1 1 0 2 bcache_two) = Returned 0"
    by code_simp
  then have run: "bget 1 1 0 2 bcache_two =
      (Returned 0, fst (snd (bget 1 1 0 2 bcache_two)), snd (snd (bget 1 1 0 2 bcache_two)))"
    by (cases "bget 1 1 0 2 bcache_two") simp
  have "Returned 0 = Returned 0 \<or> Returned 0 = Sleeping 0" by simp
  from bget_release_order [OF m run this] m r show ?thesis by blast
qed

text \<open>
  The claim as worded fails: in the cache of two buffers the first request for block 2
  takes the locks global, bucket 2, bucket 0 and releases bucket 2 (the target) before
  bucket 0 (the donor), which is not the reverse order of acquisition.
\<close>

theorem bget_releases_target_first:
  "fst (bget 1 1 0 2 bcache_two) = Returned 0 \<and>
   snd (snd (bget 1 1 0 2 bcache_two)) =
     [Acquire (HashLock 2), Release (HashLock 2), Acquire BcacheLock, Acquire (HashLock 2),
      Acquire (HashLock 0), Release (HashLock 2), Release (HashLock 0), Release BcacheLock,
      AcquireSleep 0] \<and>
   \<not> reverse_order_releases (snd (snd (bget 1 1 0 2 bcache_two)))"
  by code_simp

lemma scan_key_stamp:
  "scan_key (\<lambda>b. (bf b)\<lparr>lru_timestamp := g b\<rparr>) d k xs = scan_key bf d k xs"
  by (induction xs) auto

lemma scan_free_stamp:
  "scan_free (\<lambda>b. (bf b)\<lparr>lru_timestamp := g b\<rparr>) xs = scan_free bf xs"
  by (induction xs) auto

lemma head_stamp: "head (stamp g s) = head s"
  by (simp add: stamp_def)

lemma bufs_stamp: "bufs (stamp g s) = (\<lambda>b. (bufs s b)\<lparr>lru_timestamp := g b\<rparr>)"
  by (simp add: stamp_def)

lemma recycle_stamp: "recycle d k h b (stamp g s) = stamp g (recycle d k h b s)"
  by (auto simp: recycle_def stamp_def buf_upd_def link_front_def unlink_def fun_eq_iff)

lemma head_take_ref: "head (take_ref ticks b s) = head s"
  by (simp add: take_ref_def buf_upd_def)

lemma evict_stamp:
  "evict d k h i (stamp g s) =
     (case evict d k h i s of (r, s', tr) \<Rightarrow> (r, stamp g s', tr))"
proof (induction d k h i s rule: evict.induct)
  case (1 d k h i s)
  show ?case
  proof (cases "i < NUM_BUCKET")
    case False
    then show ?thesis by (simp add: evict_end)
  next
    case lt: True
    show ?thesis
    proof (cases "i = h")
      case True
      with lt "1.IH"(1) show ?thesis by (simp add: evict_skip)
    next
      case ne: False
      show ?thesis
      proof (cases "scan_free (bufs s) (rev (head s i))")
        case (Some b)
        then have "scan_free (bufs (stamp g s)) (rev (head (stamp g s) i)) = Some b"
          by (simp add: bufs_stamp head_stamp scan_free_stamp)
        with lt ne Some show ?thesis by (simp add: evict_found recycle_stamp)
      next
        case None
        then have "scan_free (bufs (stamp g s)) (rev (head (stamp g s) i)) = None"
          by (simp add: bufs_stamp head_stamp scan_free_stamp)
        with lt ne None "1.IH"(2) show ?thesis
          by (simp add: evict_next split: prod.splits)
      qed
    qed
  qed
qed

lemma bget_choose_stamp:
  "fst (bget_choose ticks d k (stamp g s)) = fst (bget_choose ticks d k s) \<and>
   head (fst (snd (bget_choose ticks d k (stamp g s)))) = head (fst (snd (bget_choose ticks d k s))) \<and>
   snd (snd (bget_choose ticks d k (stamp g s))) = snd (snd (bget_choose ticks d k s))"
proof (cases "scan_key (bufs s) d k (head s (hash_val k))")
  case (Some b)
  then have "scan_key (bufs (stamp g s)) d k (head (stamp g s) (hash_val k)) = Some b"
    by (simp add: bufs_stamp head_stamp scan_key_stamp)
  with Some show ?thesis by (simp add: bget_choose_hit head_take_ref head_stamp)
next
  case None
  then have n: "scan_key (bufs (stamp g s)) d k (head (stamp g s) (hash_val k)) = None"
    by (simp add: bufs_stamp head_stamp scan_key_stamp)
  obtain r s' tr where e: "evict d k (hash_val k) 0 s = (r, s', tr)"
    by (cases "evict d k (hash_val k) 0 s") auto
  then have e': "evict d k (hash_val k) 0 (stamp g s) = (r, stamp g s', tr)"
    by (simp add: evict_stamp)
  show ?thesis
    using e e'
    by (cases r)
       (simp_all add: bget_choose_miss [OF None] bget_choose_miss [OF n]
          bget_slow_miss [OF None] bget_slow_miss [OF n] head_stamp)
qed

text \<open>
  Claim C8, as the code has it. A hit, on the fast path or on the re-scan, and \<open>bpin\<close>
  set the timestamp of the buffer to the current \<open>ticks\<close>. The timestamps are never
  read: whatever they are replaced with, \<open>bget\<close> chooses the same buffer (or panics the
  same), takes the same locks and leaves the same bucket lists. The victim is fixed by
  the order of the buckets and of the buffers on them, as in claim C1.
\<close>

theorem timestamps_written_not_read:
  "(\<forall>b s' tr. bget_fast ticks d k s = (Some b, s', tr) \<longrightarrow> lru_timestamp (bufs s' b) = ticks) \<and>
   (\<forall>b. scan_key (bufs s) d k (head s (hash_val k)) = Some b \<longrightarrow>
      fst (bget_slow ticks d k s) = Inr b \<and>
      lru_timestamp (bufs (fst (snd (bget_slow ticks d k s))) b) = ticks) \<and>
   lru_timestamp (bufs (fst (bpin ticks b0 s)) b0) = ticks \<and>
   fst (bget_choose ticks d k (stamp g s)) = fst (bget_choose ticks d k s) \<and>
   head (fst (snd (bget_choose ticks d k (stamp g s)))) = head (fst (snd (bget_choose ticks d k s))) \<and>
   snd (snd (bget_choose ticks d k (stamp g s))) = snd (snd (bget_choose ticks d k s))"
proof -
  have a: "\<forall>b s' tr. bget_fast ticks d k s = (Some b, s', tr) \<longrightarrow> lru_timestamp (bufs s' b) = ticks"
    by (auto simp: bget_fast_def Let_def take_ref_def buf_upd_def split: option.splits)
  have b: "\<forall>b. scan_key (bufs s) d k (head s (hash_val k)) = Some b \<longrightarrow>
      fst (bget_slow ticks d k s) = Inr b \<and>
      lru_timestamp (bufs (fst (snd (bget_slow ticks d k s))) b) = ticks"
    by (simp add: bget_slow_hit take_ref_def buf_upd_def)
  have c: "lru_timestamp (bufs (fst (bpin ticks b0 s)) b0) = ticks"
    by (simp add: bpin_def Let_def buf_upd_def)
  from a b c bget_choose_stamp [of ticks d k g s] show ?thesis by blast
qed

theorem timestamps_written_not_read_witness:
  "fst (bget_fast 7 0 0 bcache_two) = Some 0 \<and>
   lru_timestamp (bufs (fst (snd (bget_fast 7 0 0 bcache_two))) 0) = 7 \<and>
   scan_key (bufs bcache_two) 0 0 (head bcache_two (hash_val 0)) = Some 0 \<and>
   fst (bget_slow 7 0 0 bcache_two) = Inr 0 \<and>
   lru_timestamp (bufs (fst (snd (bget_slow 7 0 0 bcache_two))) 0) = 7"
proof -
  note inst = timestamps_written_not_read [of 7 0 0 bcache_two 0 "\<lambda>b. 0"]
  have f: "fst (bget_fast 7 0 0 bcache_two) = Some 0" by code_simp
  then have "bget_fast 7 0 0 bcache_two =
      (Some 0, fst (snd (bget_fast 7 0 0 bcache_two)), snd (snd (bget_fast 7 0 0 bcache_two)))"
    by (cases "bget_fast 7 0 0 bcache_two") simp
  with inst have a: "lru_timestamp (bufs (fst (snd (bget_fast 7 0 0 bcache_two))) 0) = 7"
    by blast
  have k: "scan_key (bufs bcache_two) 0 0 (head bcache_two (hash_val 0)) = Some 0"
    by code_simp
  with inst have "fst (bget_slow 7 0 0 bcache_two) = Inr 0 \<and>
      lru_timestamp (bufs (fst (snd (bget_slow 7 0 0 bcache_two))) 0) = 7"
    by blast
  with f a k show ?thesis by blast
qed

text \<open>
  The claim as worded fails twice in the aged cache of two buffers. Both buffers are on
  bucket 2 with \<open>refcnt\<close> 0, and buffer 0 has the older timestamp; a request for block 3
  at time 9 evicts buffer 1, the one at the end of the list, and the timestamp of the
  buffer it returns is still 5, not 9.
\<close>

theorem eviction_ignores_timestamps:
  "head bcache_two_aged 2 = [0, 1] \<and>
   refcnt (bufs bcache_two_aged 0) = 0 \<and> refcnt (bufs bcache_two_aged 1) = 0 \<and>
   lru_timestamp (bufs bcache_two_aged 0) = 0 \<and> lru_timestamp (bufs bcache_two_aged 1) = 5 \<and>
   fst (bget 1 9 0 3 bcache_two_aged) = Returned 1 \<and>
   lru_timestamp (bufs (fst (snd (bget 1 9 0 3 bcache_two_aged))) 1) = 5"
  by code_simp

subsection \<open>Release and write\<close>

lemma brelse_held:
  "holdingsleep pid b s \<Longrightarrow>
   fst (brelse pid b s) =
     Inr (let s2 = buf_upd b (\<lambda>x. x\<lparr>refcnt := refcnt x - 1\<rparr>) (releasesleep b s)
          in if refcnt (bufs s b) - 1 = 0
             then link_front (hash_val (blockno (bufs s b))) b (unlink b s2) else s2)"
  by (simp add: brelse_def brelse_unref_def Let_def releasesleep_def buf_upd_def)

lemma head_move_front:
  assumes wf: "wf_bcache s" and h: "h < NUM_BUCKET" and b: "b \<in> set (head s h)"
  shows "head (link_front h b (unlink b s)) h = b # remove1 b (head s h)"
    and "\<forall>j<NUM_BUCKET. j \<noteq> h \<longrightarrow> head (link_front h b (unlink b s)) j = head s j"
proof -
  show "head (link_front h b (unlink b s)) h = b # remove1 b (head s h)"
    by (simp add: link_front_def unlink_def)
  show "\<forall>j<NUM_BUCKET. j \<noteq> h \<longrightarrow> head (link_front h b (unlink b s)) j = head s j"
  proof (intro allI impI)
    fix j assume j: "j < NUM_BUCKET" and ne: "j \<noteq> h"
    then have "h \<noteq> j" by simp
    have "b \<notin> set (head s j)" using wf h j \<open>h \<noteq> j\<close> b by (rule wf_notin)
    then show "head (link_front h b (unlink b s)) j = head s j"
      using ne by (simp add: link_front_def unlink_def remove1_idem)
  qed
qed

text \<open>
  Claim C6. \<open>bwrite\<close> and \<open>brelse\<close> panic exactly when the calling process does not hold
  the sleep-lock of the buffer. When it does, \<open>bwrite\<close> stores the data of the buffer in
  its block of the disk, and \<open>brelse\<close> frees the sleep-lock and decrements \<open>refcnt\<close>, the
  other buffers being untouched; if the new count is not 0 the lists are unchanged, and
  if it is 0 the buffer, in a well-formed cache where it is on the bucket of its block
  number, becomes the first buffer of that bucket, the rest of the bucket keeping its
  order and the other buckets being unchanged.
\<close>

theorem bwrite_brelse_contract:
  "((\<exists>e. bwrite pid b s = Inl e) \<longleftrightarrow> \<not> holdingsleep pid b s) \<and>
   ((\<exists>e. fst (brelse pid b s) = Inl e) \<longleftrightarrow> \<not> holdingsleep pid b s) \<and>
   (holdingsleep pid b s \<longrightarrow>
      (\<exists>s'. bwrite pid b s = Inr s' \<and>
            disk s' (dev (bufs s b), blockno (bufs s b)) = data (bufs s b) \<and>
            bufs s' = bufs s \<and> head s' = head s) \<and>
      (\<exists>s'. fst (brelse pid b s) = Inr s' \<and>
            refcnt (bufs s' b) = refcnt (bufs s b) - 1 \<and>
            lock_holder (bufs s' b) = None \<and>
            (\<forall>x. x \<noteq> b \<longrightarrow> bufs s' x = bufs s x) \<and>
            (refcnt (bufs s b) - 1 \<noteq> 0 \<longrightarrow> head s' = head s) \<and>
            (refcnt (bufs s b) - 1 = 0 \<and> wf_bcache s \<and>
             b \<in> set (head s (hash_val (blockno (bufs s b)))) \<longrightarrow>
               head s' (hash_val (blockno (bufs s b)))
                 = b # remove1 b (head s (hash_val (blockno (bufs s b)))) \<and>
               (\<forall>j<NUM_BUCKET. j \<noteq> hash_val (blockno (bufs s b)) \<longrightarrow> head s' j = head s j))))"
proof (intro conjI impI)
  show "(\<exists>e. bwrite pid b s = Inl e) \<longleftrightarrow> \<not> holdingsleep pid b s"
    by (simp add: bwrite_def)
  show "(\<exists>e. fst (brelse pid b s) = Inl e) \<longleftrightarrow> \<not> holdingsleep pid b s"
    by (simp add: brelse_def Let_def)
next
  assume "holdingsleep pid b s"
  then show "\<exists>s'. bwrite pid b s = Inr s' \<and>
            disk s' (dev (bufs s b), blockno (bufs s b)) = data (bufs s b) \<and>
            bufs s' = bufs s \<and> head s' = head s"
    by (simp add: bwrite_def virtio_disk_rw_def Let_def)
next
  assume held: "holdingsleep pid b s"
  let ?h = "hash_val (blockno (bufs s b))"
  let ?s2 = "buf_upd b (\<lambda>x. x\<lparr>refcnt := refcnt x - 1\<rparr>) (releasesleep b s)"
  let ?s' = "if refcnt (bufs s b) - 1 = 0 then link_front ?h b (unlink b ?s2) else ?s2"
  have r: "fst (brelse pid b s) = Inr ?s'"
    using brelse_held [OF held] by (simp add: Let_def)
  have hd2: "head ?s2 = head s" by (simp add: buf_upd_def releasesleep_def)
  have bf: "bufs ?s' = (bufs s)(b := (bufs s b)\<lparr>lock_holder := None, refcnt := refcnt (bufs s b) - 1\<rparr>)"
    by (simp add: buf_upd_def releasesleep_def link_front_def unlink_def)
  have a: "refcnt (bufs ?s' b) = refcnt (bufs s b) - 1" by (simp only: bf) simp
  have b: "lock_holder (bufs ?s' b) = None" by (simp only: bf) simp
  have c: "\<forall>x. x \<noteq> b \<longrightarrow> bufs ?s' x = bufs s x" by (simp only: bf) simp
  have d: "refcnt (bufs s b) - 1 \<noteq> 0 \<longrightarrow> head ?s' = head s" using hd2 by simp
  have e: "refcnt (bufs s b) - 1 = 0 \<and> wf_bcache s \<and> b \<in> set (head s ?h) \<longrightarrow>
               head ?s' ?h = b # remove1 b (head s ?h) \<and>
               (\<forall>j<NUM_BUCKET. j \<noteq> ?h \<longrightarrow> head ?s' j = head s j)"
  proof
    assume h: "refcnt (bufs s b) - 1 = 0 \<and> wf_bcache s \<and> b \<in> set (head s ?h)"
    then have wf2: "wf_bcache ?s2" and b2: "b \<in> set (head ?s2 ?h)"
      using hd2 by (simp_all add: wf_bcache_def)
    from head_move_front [OF wf2 hash_val_less b2] h hd2
    show "head ?s' ?h = b # remove1 b (head s ?h) \<and>
               (\<forall>j<NUM_BUCKET. j \<noteq> ?h \<longrightarrow> head ?s' j = head s j)"
      by simp
  qed
  from r a b c d e
  show "\<exists>s'. fst (brelse pid b s) = Inr s' \<and>
            refcnt (bufs s' b) = refcnt (bufs s b) - 1 \<and>
            lock_holder (bufs s' b) = None \<and>
            (\<forall>x. x \<noteq> b \<longrightarrow> bufs s' x = bufs s x) \<and>
            (refcnt (bufs s b) - 1 \<noteq> 0 \<longrightarrow> head s' = head s) \<and>
            (refcnt (bufs s b) - 1 = 0 \<and> wf_bcache s \<and> b \<in> set (head s ?h) \<longrightarrow>
               head s' ?h = b # remove1 b (head s ?h) \<and>
               (\<forall>j<NUM_BUCKET. j \<noteq> ?h \<longrightarrow> head s' j = head s j))"
    by (intro exI [of _ ?s']) blast
qed

theorem bwrite_brelse_contract_witness:
  "holdingsleep 1 0 bcache_two_busy \<and> wf_bcache bcache_two_busy \<and>
   head bcache_two_busy 2 = [1, 0] \<and> hash_val (blockno (bufs bcache_two_busy 0)) = 2 \<and>
   refcnt (bufs bcache_two_busy 0) - 1 = 0 \<and>
   (\<exists>s'. fst (brelse 1 0 bcache_two_busy) = Inr s' \<and> head s' 2 = [0, 1] \<and>
         refcnt (bufs s' 0) = 0 \<and> lock_holder (bufs s' 0) = None) \<and>
   (\<exists>s'. bwrite 1 0 bcache_two_busy = Inr s') \<and>
   \<not> holdingsleep 2 0 bcache_two_busy \<and>
   (\<exists>e. bwrite 2 0 bcache_two_busy = Inl e) \<and>
   (\<exists>e. fst (brelse 2 0 bcache_two_busy) = Inl e) \<and>
   holdingsleep 1 0 (fst (bpin 3 0 bcache_two_busy)) \<and>
   refcnt (bufs (fst (bpin 3 0 bcache_two_busy)) 0) - 1 \<noteq> 0 \<and>
   (\<exists>s'. fst (brelse 1 0 (fst (bpin 3 0 bcache_two_busy))) = Inr s' \<and>
         head s' = head (fst (bpin 3 0 bcache_two_busy)))"
proof -
  let ?S = bcache_two_busy
  let ?P = "fst (bpin 3 0 bcache_two_busy)"
  have h1: "holdingsleep 1 0 ?S" by code_simp
  have wf: "wf_bcache ?S" by code_simp
  have hd: "head ?S 2 = [1, 0]" by code_simp
  have hv: "hash_val (blockno (bufs ?S 0)) = 2" by code_simp
  have rc: "refcnt (bufs ?S 0) - 1 = 0" by code_simp
  have h2: "\<not> holdingsleep 2 0 ?S" by code_simp
  have h3: "holdingsleep 1 0 ?P" by code_simp
  have rc3: "refcnt (bufs ?P 0) - 1 \<noteq> 0" by code_simp
  note one = bwrite_brelse_contract [of 1 0 ?S]
  note two = bwrite_brelse_contract [of 2 0 ?S]
  note pin = bwrite_brelse_contract [of 1 0 ?P]
  have mem: "0 \<in> set (head ?S (hash_val (blockno (bufs ?S 0))))"
    by (simp only: hv hd) simp
  from one h1 obtain s' where s': "fst (brelse 1 0 ?S) = Inr s'"
    "refcnt (bufs s' 0) = refcnt (bufs ?S 0) - 1" "lock_holder (bufs s' 0) = None"
    "refcnt (bufs ?S 0) - 1 = 0 \<and> wf_bcache ?S \<and>
       0 \<in> set (head ?S (hash_val (blockno (bufs ?S 0)))) \<longrightarrow>
         head s' (hash_val (blockno (bufs ?S 0)))
           = 0 # remove1 0 (head ?S (hash_val (blockno (bufs ?S 0))))"
    by blast
  from s'(4) rc wf mem have "head s' 2 = [0, 1]" by (simp add: hv hd)
  with s'(1,2,3) rc have a: "\<exists>s'. fst (brelse 1 0 ?S) = Inr s' \<and> head s' 2 = [0, 1] \<and>
         refcnt (bufs s' 0) = 0 \<and> lock_holder (bufs s' 0) = None"
    by auto
  from one h1 have b: "\<exists>s'. bwrite 1 0 ?S = Inr s'" by blast
  from two h2 have c: "\<exists>e. bwrite 2 0 ?S = Inl e" and d: "\<exists>e. fst (brelse 2 0 ?S) = Inl e"
    by blast+
  from pin h3 rc3 have e: "\<exists>s'. fst (brelse 1 0 ?P) = Inr s' \<and> head s' = head ?P"
    by blast
  from h1 wf hd hv rc a b h2 c d h3 rc3 e show ?thesis by blast
qed

subsection \<open>Processes that read the same block\<close>

lemma scan_key_cong:
  "(\<And>x. x \<in> set xs \<Longrightarrow> dev (bf' x) = dev (bf x) \<and> blockno (bf' x) = blockno (bf x)) \<Longrightarrow>
   scan_key bf' d k xs = scan_key bf d k xs"
  by (induction xs) auto

lemma scan_key_Some_key:
  "scan_key bf d k xs = Some b \<Longrightarrow> dev (bf b) = d \<and> blockno (bf b) = k \<and> b \<in> set xs"
  using scan_key_Some [of bf d k xs b] by auto

lemma scan_key_upd:
  "dev v = dev (bf b) \<Longrightarrow> blockno v = blockno (bf b) \<Longrightarrow>
   scan_key (bf(b := v)) d k xs = scan_key bf d k xs"
  by (rule scan_key_cong) auto

lemma scan_key_move_front:
  assumes "scan_key bf d k xs = Some b"
  shows "scan_key bf d k (b # remove1 b xs) = Some b"
  using scan_key_Some_key [OF assms] by simp

text \<open>The steps that leave the key of every buffer and the lists alone.\<close>

lemma after_load_upd:
  assumes inv: "after_load d k s0 b (s, pcs)" and t: "t < length pcs"
    and sk: "scan_key (bufs s') d k (head s' (hash_val k)) = Some b"
    and p: "given p' = Some b"
    and lk: "\<forall>u<length pcs. (if u = t then locking p' else locking (pcs ! u))
               \<longleftrightarrow> lock_holder (bufs s' b) = Some u"
    and own: "lock_holder (bufs s' b) = None \<or> (\<exists>u<length pcs. lock_holder (bufs s' b) = Some u)"
    and rd: "(valid (bufs s' b) = 0 \<and> disk_reads s' = disk_reads s0 \<and> \<not> returned p' \<and>
              (\<forall>u<length pcs. \<not> returned (pcs ! u))) \<or>
             (valid (bufs s' b) = 1 \<and> disk_reads s' = disk_reads s0 + 1)"
  shows "after_load d k s0 b (s', pcs[t := p'])"
proof -
  have who: "\<forall>u<length pcs. pcs ! u = Start \<or> pcs ! u = Missed \<or> given (pcs ! u) = Some b"
    using inv by (simp add: after_load_def)
  have "\<forall>u<length (pcs[t := p']). pcs[t := p'] ! u = Start \<or> pcs[t := p'] ! u = Missed \<or>
          given (pcs[t := p'] ! u) = Some b"
    using who p t by (auto simp: nth_list_update)
  moreover have "\<forall>u<length (pcs[t := p']). locking (pcs[t := p'] ! u)
          \<longleftrightarrow> lock_holder (bufs s' b) = Some u"
    using lk t by (auto simp: nth_list_update)
  moreover have "(valid (bufs s' b) = 0 \<and> disk_reads s' = disk_reads s0 \<and>
        (\<forall>u<length (pcs[t := p']). \<not> returned (pcs[t := p'] ! u))) \<or>
       (valid (bufs s' b) = 1 \<and> disk_reads s' = disk_reads s0 + 1)"
    using rd t by (auto simp: nth_list_update)
  ultimately show ?thesis using sk own by (simp add: after_load_def)
qed

lemma bufs_take_ref:
  "bufs (take_ref ticks b s) =
     (bufs s)(b := (bufs s b)\<lparr>refcnt := refcnt (bufs s b) + 1, lru_timestamp := ticks\<rparr>)"
  by (simp add: take_ref_def buf_upd_def)

lemma disk_reads_take_ref: "disk_reads (take_ref ticks b s) = disk_reads s"
  by (simp add: take_ref_def buf_upd_def)

lemma after_load_hit:
  assumes inv: "after_load d k s0 b (s, pcs)" and t: "t < length pcs"
    and p: "pcs ! t = Start \<or> pcs ! t = Missed"
  shows "after_load d k s0 b (take_ref ticks b s, pcs[t := WaitSleep b])"
proof (rule after_load_upd [OF inv t])
  have sk: "scan_key (bufs s) d k (head s (hash_val k)) = Some b"
    and lk: "\<forall>u<length pcs. locking (pcs ! u) \<longleftrightarrow> lock_holder (bufs s b) = Some u"
    and own: "lock_holder (bufs s b) = None \<or> (\<exists>u<length pcs. lock_holder (bufs s b) = Some u)"
    and rd: "(valid (bufs s b) = 0 \<and> disk_reads s = disk_reads s0 \<and>
              (\<forall>u<length pcs. \<not> returned (pcs ! u))) \<or>
             (valid (bufs s b) = 1 \<and> disk_reads s = disk_reads s0 + 1)"
    using inv by (simp_all add: after_load_def)
  let ?s' = "take_ref ticks b s"
  show "scan_key (bufs ?s') d k (head ?s' (hash_val k)) = Some b"
    using sk by (simp add: bufs_take_ref head_take_ref scan_key_upd)
  show "given (WaitSleep b) = Some b" by simp
  have nt: "lock_holder (bufs s b) \<noteq> Some t" using lk t p by auto
  show "\<forall>u<length pcs. (if u = t then locking (WaitSleep b) else locking (pcs ! u))
               \<longleftrightarrow> lock_holder (bufs ?s' b) = Some u"
    using lk nt by (simp add: bufs_take_ref)
  show "lock_holder (bufs ?s' b) = None \<or> (\<exists>u<length pcs. lock_holder (bufs ?s' b) = Some u)"
    using own by (simp add: bufs_take_ref)
  show "(valid (bufs ?s' b) = 0 \<and> disk_reads ?s' = disk_reads s0 \<and> \<not> returned (WaitSleep b) \<and>
              (\<forall>u<length pcs. \<not> returned (pcs ! u))) \<or>
             (valid (bufs ?s' b) = 1 \<and> disk_reads ?s' = disk_reads s0 + 1)"
    using rd by (simp add: bufs_take_ref disk_reads_take_ref)
qed

lemma after_load_acquire:
  assumes inv: "after_load d k s0 b (s, pcs)" and t: "t < length pcs"
    and p: "pcs ! t = WaitSleep b" and free: "lock_holder (bufs s b) = None"
  shows "after_load d k s0 b
           (buf_upd b (\<lambda>x. x\<lparr>lock_holder := Some t\<rparr>) s, pcs[t := Holding b])"
proof (rule after_load_upd [OF inv t])
  have sk: "scan_key (bufs s) d k (head s (hash_val k)) = Some b"
    and lk: "\<forall>u<length pcs. locking (pcs ! u) \<longleftrightarrow> lock_holder (bufs s b) = Some u"
    and rd: "(valid (bufs s b) = 0 \<and> disk_reads s = disk_reads s0 \<and>
              (\<forall>u<length pcs. \<not> returned (pcs ! u))) \<or>
             (valid (bufs s b) = 1 \<and> disk_reads s = disk_reads s0 + 1)"
    using inv by (simp_all add: after_load_def)
  let ?s' = "buf_upd b (\<lambda>x. x\<lparr>lock_holder := Some t\<rparr>) s"
  show "scan_key (bufs ?s') d k (head ?s' (hash_val k)) = Some b"
    using sk by (simp add: buf_upd_def scan_key_upd)
  show "given (Holding b) = Some b" by simp
  show "\<forall>u<length pcs. (if u = t then locking (Holding b) else locking (pcs ! u))
               \<longleftrightarrow> lock_holder (bufs ?s' b) = Some u"
    using lk free by (auto simp: buf_upd_def)
  show "lock_holder (bufs ?s' b) = None \<or> (\<exists>u<length pcs. lock_holder (bufs ?s' b) = Some u)"
    using t by (auto simp: buf_upd_def)
  show "(valid (bufs ?s' b) = 0 \<and> disk_reads ?s' = disk_reads s0 \<and> \<not> returned (Holding b) \<and>
              (\<forall>u<length pcs. \<not> returned (pcs ! u))) \<or>
             (valid (bufs ?s' b) = 1 \<and> disk_reads ?s' = disk_reads s0 + 1)"
    using rd by (simp add: buf_upd_def)
qed

lemma after_load_fill:
  assumes inv: "after_load d k s0 b (s, pcs)" and t: "t < length pcs"
    and p: "pcs ! t = Holding b"
  shows "after_load d k s0 b (bread_fill b s, pcs[t := Using b])"
proof (rule after_load_upd [OF inv t])
  have sk: "scan_key (bufs s) d k (head s (hash_val k)) = Some b"
    and lk: "\<forall>u<length pcs. locking (pcs ! u) \<longleftrightarrow> lock_holder (bufs s b) = Some u"
    and own: "lock_holder (bufs s b) = None \<or> (\<exists>u<length pcs. lock_holder (bufs s b) = Some u)"
    and rd: "(valid (bufs s b) = 0 \<and> disk_reads s = disk_reads s0 \<and>
              (\<forall>u<length pcs. \<not> returned (pcs ! u))) \<or>
             (valid (bufs s b) = 1 \<and> disk_reads s = disk_reads s0 + 1)"
    using inv by (simp_all add: after_load_def)
  let ?s' = "bread_fill b s"
  have bf: "bufs ?s' = (if valid (bufs s b) = 0
              then (bufs s)(b := (bufs s b)\<lparr>data := disk s (dev (bufs s b), blockno (bufs s b)),
                                           valid := 1\<rparr>)
              else bufs s)"
    by (simp add: bread_fill_def virtio_disk_rw_def buf_upd_def Let_def)
  have hd: "head ?s' = head s"
    by (simp add: bread_fill_def virtio_disk_rw_def buf_upd_def Let_def)
  have dr: "disk_reads ?s' = (if valid (bufs s b) = 0 then disk_reads s + 1 else disk_reads s)"
    by (simp add: bread_fill_def virtio_disk_rw_def buf_upd_def Let_def)
  show "scan_key (bufs ?s') d k (head ?s' (hash_val k)) = Some b"
    using sk by (simp add: bf hd scan_key_upd)
  show "given (Using b) = Some b" by simp
  have mine: "lock_holder (bufs s b) = Some t" using lk t p by auto
  show "\<forall>u<length pcs. (if u = t then locking (Using b) else locking (pcs ! u))
               \<longleftrightarrow> lock_holder (bufs ?s' b) = Some u"
    using lk mine by (auto simp: bf)
  show "lock_holder (bufs ?s' b) = None \<or> (\<exists>u<length pcs. lock_holder (bufs ?s' b) = Some u)"
    using own by (simp add: bf)
  show "(valid (bufs ?s' b) = 0 \<and> disk_reads ?s' = disk_reads s0 \<and> \<not> returned (Using b) \<and>
              (\<forall>u<length pcs. \<not> returned (pcs ! u))) \<or>
             (valid (bufs ?s' b) = 1 \<and> disk_reads ?s' = disk_reads s0 + 1)"
    using rd by (auto simp: bf dr)
qed

lemma after_load_unlock:
  assumes inv: "after_load d k s0 b (s, pcs)" and t: "t < length pcs"
    and p: "pcs ! t = Using b"
  shows "after_load d k s0 b (releasesleep b s, pcs[t := Releasing b])"
proof (rule after_load_upd [OF inv t])
  have sk: "scan_key (bufs s) d k (head s (hash_val k)) = Some b"
    and lk: "\<forall>u<length pcs. locking (pcs ! u) \<longleftrightarrow> lock_holder (bufs s b) = Some u"
    and rd: "(valid (bufs s b) = 0 \<and> disk_reads s = disk_reads s0 \<and>
              (\<forall>u<length pcs. \<not> returned (pcs ! u))) \<or>
             (valid (bufs s b) = 1 \<and> disk_reads s = disk_reads s0 + 1)"
    using inv by (simp_all add: after_load_def)
  let ?s' = "releasesleep b s"
  show "scan_key (bufs ?s') d k (head ?s' (hash_val k)) = Some b"
    using sk by (simp add: releasesleep_def buf_upd_def scan_key_upd)
  show "given (Releasing b) = Some b" by simp
  have mine: "lock_holder (bufs s b) = Some t" using lk t p by auto
  show "\<forall>u<length pcs. (if u = t then locking (Releasing b) else locking (pcs ! u))
               \<longleftrightarrow> lock_holder (bufs ?s' b) = Some u"
    using lk mine by (auto simp: releasesleep_def buf_upd_def)
  show "lock_holder (bufs ?s' b) = None \<or> (\<exists>u<length pcs. lock_holder (bufs ?s' b) = Some u)"
    by (simp add: releasesleep_def buf_upd_def)
  have "returned (pcs ! t)" using p by simp
  with rd t have "valid (bufs s b) = 1 \<and> disk_reads s = disk_reads s0 + 1" by auto
  then show "(valid (bufs ?s' b) = 0 \<and> disk_reads ?s' = disk_reads s0 \<and> \<not> returned (Releasing b) \<and>
              (\<forall>u<length pcs. \<not> returned (pcs ! u))) \<or>
             (valid (bufs ?s' b) = 1 \<and> disk_reads ?s' = disk_reads s0 + 1)"
    by (simp add: releasesleep_def buf_upd_def)
qed

lemma after_load_unref:
  assumes inv: "after_load d k s0 b (s, pcs)" and t: "t < length pcs"
    and p: "pcs ! t = Releasing b"
  shows "after_load d k s0 b (brelse_unref b s, pcs[t := Done b])"
proof (rule after_load_upd [OF inv t])
  have sk: "scan_key (bufs s) d k (head s (hash_val k)) = Some b"
    and lk: "\<forall>u<length pcs. locking (pcs ! u) \<longleftrightarrow> lock_holder (bufs s b) = Some u"
    and own: "lock_holder (bufs s b) = None \<or> (\<exists>u<length pcs. lock_holder (bufs s b) = Some u)"
    and rd: "(valid (bufs s b) = 0 \<and> disk_reads s = disk_reads s0 \<and>
              (\<forall>u<length pcs. \<not> returned (pcs ! u))) \<or>
             (valid (bufs s b) = 1 \<and> disk_reads s = disk_reads s0 + 1)"
    using inv by (simp_all add: after_load_def)
  let ?s' = "brelse_unref b s"
  have key: "blockno (bufs s b) = k" using scan_key_Some_key [OF sk] by simp
  have bf: "bufs ?s' = (bufs s)(b := (bufs s b)\<lparr>refcnt := refcnt (bufs s b) - 1\<rparr>)"
    by (simp add: brelse_unref_def Let_def buf_upd_def link_front_def unlink_def)
  have hd: "head ?s' (hash_val k) = head s (hash_val k) \<or>
            head ?s' (hash_val k) = b # remove1 b (head s (hash_val k))"
    using key by (simp add: brelse_unref_def Let_def buf_upd_def link_front_def unlink_def)
  have dr: "disk_reads ?s' = disk_reads s"
    by (simp add: brelse_unref_def Let_def buf_upd_def link_front_def unlink_def)
  have "scan_key (bufs s) d k (head ?s' (hash_val k)) = Some b"
    using hd sk scan_key_move_front [OF sk] by auto
  then show "scan_key (bufs ?s') d k (head ?s' (hash_val k)) = Some b"
    by (simp add: bf scan_key_upd)
  show "given (Done b) = Some b" by simp
  have nt: "lock_holder (bufs s b) \<noteq> Some t" using lk t p by auto
  show "\<forall>u<length pcs. (if u = t then locking (Done b) else locking (pcs ! u))
               \<longleftrightarrow> lock_holder (bufs ?s' b) = Some u"
    using lk nt by (simp add: bf)
  show "lock_holder (bufs ?s' b) = None \<or> (\<exists>u<length pcs. lock_holder (bufs ?s' b) = Some u)"
    using own by (simp add: bf)
  have "returned (pcs ! t)" using p by simp
  with rd t have "valid (bufs s b) = 1 \<and> disk_reads s = disk_reads s0 + 1" by auto
  then show "(valid (bufs ?s' b) = 0 \<and> disk_reads ?s' = disk_reads s0 \<and> \<not> returned (Done b) \<and>
              (\<forall>u<length pcs. \<not> returned (pcs ! u))) \<or>
             (valid (bufs ?s' b) = 1 \<and> disk_reads ?s' = disk_reads s0 + 1)"
    by (simp add: bf dr)
qed

lemma after_load_step:
  assumes inv: "after_load d k s0 b (s, pcs)" and t: "t < length pcs"
    and st: "thread_step d k ticks t (pcs ! t) s = Some (p', s')"
  shows "after_load d k s0 b (s', pcs[t := p'])"
proof -
  have sk: "scan_key (bufs s) d k (head s (hash_val k)) = Some b"
    and who: "pcs ! t = Start \<or> pcs ! t = Missed \<or> given (pcs ! t) = Some b"
    and lk: "\<forall>u<length pcs. locking (pcs ! u) \<longleftrightarrow> lock_holder (bufs s b) = Some u"
    using inv t by (simp_all add: after_load_def)
  show ?thesis
  proof (cases "pcs ! t")
    case Start
    with st sk have "p' = WaitSleep b" "s' = take_ref ticks b s"
      by (auto simp: thread_step_def bget_fast_def Let_def)
    with after_load_hit [OF inv t] Start show ?thesis by simp
  next
    case Missed
    with st sk have "p' = WaitSleep b" "s' = take_ref ticks b s"
      by (auto simp: thread_step_def bget_slow_hit)
    with after_load_hit [OF inv t] Missed show ?thesis by simp
  next
    case (WaitSleep b')
    with who have b': "b' = b" by simp
    with st WaitSleep have free: "lock_holder (bufs s b) = None"
      and "p' = Holding b" "s' = buf_upd b (\<lambda>x. x\<lparr>lock_holder := Some t\<rparr>) s"
      by (auto simp: thread_step_def acquiresleep_def split: if_splits)
    with after_load_acquire [OF inv t _ free] WaitSleep b' show ?thesis by simp
  next
    case (Holding b')
    with who have b': "b' = b" by simp
    with st Holding have "p' = Using b" "s' = bread_fill b s"
      by (auto simp: thread_step_def)
    with after_load_fill [OF inv t] Holding b' show ?thesis by simp
  next
    case (Using b')
    with who have b': "b' = b" by simp
    have "lock_holder (bufs s b) = Some t" using lk t Using by auto
    with st Using b' have "p' = Releasing b" "s' = releasesleep b s"
      by (auto simp: thread_step_def holdingsleep_def)
    with after_load_unlock [OF inv t] Using b' show ?thesis by simp
  next
    case (Releasing b')
    with who have b': "b' = b" by simp
    with st Releasing have "p' = Done b" "s' = brelse_unref b s"
      by (auto simp: thread_step_def)
    with after_load_unref [OF inv t] Releasing b' show ?thesis by simp
  next
    case (Done b')
    with st show ?thesis by (simp add: thread_step_def)
  next
    case Dead
    with st show ?thesis by (simp add: thread_step_def)
  qed
qed

lemma no_victim_evict:
  "no_victim h s \<longleftrightarrow> (\<exists>s' tr. evict d k h 0 s = (None, s', tr))"
  by (simp add: no_victim_def evict_total)

lemma before_load_step:
  assumes uncached: "scan_key (bufs s0) d k (head s0 (hash_val k)) = None"
    and unlocked: "\<forall>b. refcnt (bufs s0 b) = 0 \<longrightarrow> lock_holder (bufs s0 b) = None"
    and inv: "before_load k s0 (s, pcs)" and t: "t < length pcs"
    and st: "thread_step d k ticks t (pcs ! t) s = Some (p', s')"
  shows "load_inv d k s0 (s', pcs[t := p'])"
proof -
  let ?h = "hash_val k"
  have s: "s = s0"
    and who: "\<forall>u<length pcs. pcs ! u = Start \<or> pcs ! u = Missed \<or>
                (pcs ! u = Dead \<and> no_victim ?h s0)"
    using inv by (simp_all add: before_load_def)
  from who t consider "pcs ! t = Start" | "pcs ! t = Missed" | "pcs ! t = Dead" by blast
  then show ?thesis
  proof cases
    case 1
    with st uncached s have "p' = Missed" "s' = s0"
      by (auto simp: thread_step_def bget_fast_def Let_def)
    with who t have "before_load k s0 (s', pcs[t := p'])"
      by (auto simp: before_load_def nth_list_update)
    then show ?thesis by (simp add: load_inv_def)
  next
    case 3
    with st show ?thesis by (simp add: thread_step_def)
  next
    case 2
    obtain r s1 tr where e: "evict d k ?h 0 s0 = (r, s1, tr)"
      by (cases "evict d k ?h 0 s0") auto
    show ?thesis
    proof (cases r)
      case None
      with e have nv: "no_victim ?h s0" using no_victim_evict [of ?h s0 d k] by blast
      from e None have "s1 = s0" using evict_None by blast
      with st 2 s e None have "p' = Dead" "s' = s0"
        by (auto simp: thread_step_def bget_slow_miss [OF uncached])
      with who t nv have "before_load k s0 (s', pcs[t := p'])"
        by (auto simp: before_load_def nth_list_update)
      then show ?thesis by (simp add: load_inv_def)
    next
      case (Some b)
      with e have e': "evict d k ?h 0 s0 = (Some b, s1, tr)" by simp
      from evict_Some [OF e'] obtain j where
        found: "scan_free (bufs s0) (rev (head s0 j)) = Some b"
        and s1: "s1 = recycle d k ?h b s0"
        by blast
      have "refcnt (bufs s0 b) = 0" using scan_free_Some [OF found] by blast
      with unlocked have free: "lock_holder (bufs s0 b) = None" by simp
      from st 2 s e' have p': "p' = WaitSleep b" and s': "s' = s1"
        by (auto simp: thread_step_def bget_slow_miss [OF uncached])
      have "\<not> no_victim ?h s0" using e' no_victim_evict [of ?h s0 d k] by auto
      with who have alive: "\<forall>u<length pcs. pcs ! u = Start \<or> pcs ! u = Missed" by blast
      have sk: "scan_key (bufs s1) d k (head s1 ?h) = Some b"
        by (simp add: s1 bufs_recycle head_recycle)
      have a: "\<forall>u<length (pcs[t := p']). pcs[t := p'] ! u = Start \<or> pcs[t := p'] ! u = Missed \<or>
                 given (pcs[t := p'] ! u) = Some b"
        using alive t p' by (auto simp: nth_list_update)
      have b: "\<forall>u<length (pcs[t := p']). locking (pcs[t := p'] ! u)
                 \<longleftrightarrow> lock_holder (bufs s1 b) = Some u"
        using alive t p' free by (auto simp: nth_list_update s1 bufs_recycle)
      have c: "lock_holder (bufs s1 b) = None" using free by (simp add: s1 bufs_recycle)
      have d: "valid (bufs s1 b) = 0 \<and> disk_reads s1 = disk_reads s0 \<and>
                 (\<forall>u<length (pcs[t := p']). \<not> returned (pcs[t := p'] ! u))"
        using alive t p'
        by (auto simp: nth_list_update s1 bufs_recycle recycle_def buf_upd_def link_front_def
              unlink_def)
      have "after_load d k s0 b (s', pcs[t := p'])"
        using sk a b c d by (simp add: after_load_def s')
      then show ?thesis by (auto simp: load_inv_def)
    qed
  qed
qed

lemma load_inv_step:
  assumes uncached: "scan_key (bufs s0) d k (head s0 (hash_val k)) = None"
    and unlocked: "\<forall>b. refcnt (bufs s0 b) = 0 \<longrightarrow> lock_holder (bufs s0 b) = None"
    and inv: "load_inv d k s0 (s, pcs)" and t: "t < length pcs"
    and st: "thread_step d k ticks t (pcs ! t) s = Some (p', s')"
  shows "load_inv d k s0 (s', pcs[t := p'])"
  using inv before_load_step [OF uncached unlocked _ t st] after_load_step [OF _ t st]
  by (auto simp: load_inv_def)

lemma load_inv_exec:
  assumes uncached: "scan_key (bufs s0) d k (head s0 (hash_val k)) = None"
    and unlocked: "\<forall>b. refcnt (bufs s0 b) = 0 \<longrightarrow> lock_holder (bufs s0 b) = None"
  shows "load_inv d k s0 c \<Longrightarrow> load_inv d k s0 (exec (\<lambda>t. (d, k)) sch c)"
proof (induction sch arbitrary: c)
  case Nil
  then show ?case by simp
next
  case (Cons x sch)
  obtain t ticks where x: "x = (t, ticks)" by (cases x)
  obtain s pcs where c: "c = (s, pcs)" by (cases c)
  show ?case
  proof (cases "t < length pcs")
    case False
    with Cons x c show ?thesis by simp
  next
    case True
    show ?thesis
    proof (cases "thread_step d k ticks t (pcs ! t) s")
      case None
      with Cons x c True show ?thesis by simp
    next
      case (Some r)
      obtain p' s' where r: "r = (p', s')" by (cases r)
      from Cons.prems c have "load_inv d k s0 (s, pcs)" by simp
      from load_inv_step [OF uncached unlocked this True] Some r
      have "load_inv d k s0 (s', pcs[t := p'])" by simp
      from Cons.IH [OF this] Some r x c True show ?thesis by simp
    qed
  qed
qed

lemma length_exec: "length (snd (exec keys sch c)) = length (snd c)"
proof (induction sch arbitrary: c)
  case Nil
  then show ?case by simp
next
  case (Cons x sch)
  obtain t ticks where x: "x = (t, ticks)" by (cases x)
  obtain s pcs where c: "c = (s, pcs)" by (cases c)
  show ?case
  proof (cases "t < length pcs")
    case False
    with Cons.IH [of "(s, pcs)"] show ?thesis by (simp add: x c)
  next
    case True
    show ?thesis
    proof (cases "thread_step (fst (keys t)) (snd (keys t)) ticks t (pcs ! t) s")
      case None
      with Cons.IH [of "(s, pcs)"] True show ?thesis by (simp add: x c)
    next
      case (Some r)
      obtain p' s' where r: "r = (p', s')" by (cases r)
      from Cons.IH [of "(s', pcs[t := p'])"] Some r True show ?thesis by (simp add: x c)
    qed
  qed
qed

lemma exec_append: "exec keys (xs @ ys) c = exec keys ys (exec keys xs c)"
proof (induction xs arbitrary: c)
  case Nil
  then show ?case by simp
next
  case (Cons x xs)
  obtain t ticks where x: "x = (t, ticks)" by (cases x)
  obtain s pcs where c: "c = (s, pcs)" by (cases c)
  show ?case using Cons.IH by (auto simp: x c split: option.splits)
qed

lemma thread_step_decreases:
  "thread_step d k ticks t p s = Some (p', s') \<Longrightarrow> remaining p' < remaining p"
  by (cases p)
     (auto simp: thread_step_def split: prod.splits option.splits sum.splits if_splits)

lemma sum_list_update_less:
  fixes f :: "'a \<Rightarrow> nat"
  assumes "t < length xs" and "f y < f (xs ! t)"
  shows "sum_list (map f (xs[t := y])) < sum_list (map f xs)"
  using assms
proof (induction xs arbitrary: t)
  case Nil
  then show ?case by simp
next
  case (Cons x xs)
  then show ?case by (cases t) auto
qed

lemma load_inv_alive:
  assumes inv: "load_inv d k s0 c" and victim: "\<not> no_victim (hash_val k) s0"
    and t: "t < length (snd c)"
  shows "snd c ! t \<noteq> Dead"
proof
  assume dead: "snd c ! t = Dead"
  from inv show False
    unfolding load_inv_def
  proof
    assume "before_load k s0 c"
    with t dead victim show False by (auto simp: before_load_def)
  next
    assume "\<exists>b. after_load d k s0 b c"
    then obtain b where "after_load d k s0 b c" by blast
    with t have "snd c ! t = Start \<or> snd c ! t = Missed \<or> given (snd c ! t) = Some b"
      by (simp add: after_load_def)
    with dead show False by simp
  qed
qed

text \<open>No deadlock: while some process is not finished, some process can move.\<close>

lemma load_inv_progress:
  assumes inv: "load_inv d k s0 c" and victim: "\<not> no_victim (hash_val k) s0"
    and todo: "\<exists>t<length (snd c). \<not> finished (snd c ! t)"
  shows "\<exists>t. can_step d k c t"
proof -
  obtain s pcs where c: "c = (s, pcs)" by (cases c)
  from todo c obtain t where t: "t < length pcs" and nf: "\<not> finished (pcs ! t)" by auto
  have alive: "pcs ! t \<noteq> Dead" using load_inv_alive [OF inv victim, of t] t c by simp
  show ?thesis
  proof (cases "\<exists>b. pcs ! t = WaitSleep b")
    case False
    with nf alive have "thread_step d k 0 t (pcs ! t) s \<noteq> None"
      by (cases "pcs ! t")
         (auto simp: thread_step_def split: prod.splits option.splits sum.splits)
    with t c show ?thesis by (auto simp: can_step_def)
  next
    case True
    then obtain b' where w: "pcs ! t = WaitSleep b'" by blast
    from inv c w t have "\<exists>b. after_load d k s0 b (s, pcs)"
      by (auto simp: load_inv_def before_load_def)
    then obtain b where al: "after_load d k s0 b (s, pcs)" by blast
    with t w have b': "b' = b" by (auto simp: after_load_def)
    from al have lk: "\<forall>u<length pcs. locking (pcs ! u) \<longleftrightarrow> lock_holder (bufs s b) = Some u"
      and own: "lock_holder (bufs s b) = None \<or> (\<exists>u<length pcs. lock_holder (bufs s b) = Some u)"
      by (simp_all add: after_load_def)
    from own show ?thesis
    proof
      assume "lock_holder (bufs s b) = None"
      with w b' have "thread_step d k 0 t (pcs ! t) s \<noteq> None"
        by (simp add: thread_step_def acquiresleep_def)
      with t c show ?thesis by (auto simp: can_step_def)
    next
      assume "\<exists>u<length pcs. lock_holder (bufs s b) = Some u"
      then obtain u where u: "u < length pcs" and "lock_holder (bufs s b) = Some u" by blast
      with lk have "locking (pcs ! u)" by simp
      then have "thread_step d k 0 u (pcs ! u) s \<noteq> None"
        by (cases "pcs ! u") (auto simp: thread_step_def)
      with u c show ?thesis by (auto simp: can_step_def)
    qed
  qed
qed

text \<open>Every state the processes can reach can be continued until all have finished.\<close>

lemma load_inv_completes:
  assumes uncached: "scan_key (bufs s0) d k (head s0 (hash_val k)) = None"
    and unlocked: "\<forall>b. refcnt (bufs s0 b) = 0 \<longrightarrow> lock_holder (bufs s0 b) = None"
    and victim: "\<not> no_victim (hash_val k) s0"
  shows "load_inv d k s0 c \<Longrightarrow>
         \<exists>sch. \<forall>t<length (snd c). finished (snd (exec (\<lambda>t. (d, k)) sch c) ! t)"
proof (induction "sum_list (map remaining (snd c))" arbitrary: c rule: less_induct)
  case less
  obtain s pcs where c: "c = (s, pcs)" by (cases c)
  show ?case
  proof (cases "\<exists>t<length (snd c). \<not> finished (snd c ! t)")
    case False
    then have "\<forall>t<length (snd c). finished (snd (exec (\<lambda>t. (d, k)) [] c) ! t)" by simp
    then show ?thesis by blast
  next
    case True
    from load_inv_progress [OF less.prems victim True] obtain t where
      t: "t < length pcs" and st: "thread_step d k 0 t (pcs ! t) s \<noteq> None"
      by (auto simp: can_step_def c)
    then obtain p' s' where r: "thread_step d k 0 t (pcs ! t) s = Some (p', s')" by auto
    let ?c' = "(s', pcs[t := p'])"
    have inv': "load_inv d k s0 ?c'"
      using load_inv_step [OF uncached unlocked _ t r] less.prems c by simp
    have "remaining p' < remaining (pcs ! t)" using r by (rule thread_step_decreases)
    then have "sum_list (map remaining (snd ?c')) < sum_list (map remaining (snd c))"
      using t c by (simp add: sum_list_update_less)
    from less.hyps [OF this inv'] obtain sch where
      sch: "\<forall>u<length (snd ?c'). finished (snd (exec (\<lambda>t. (d, k)) sch ?c') ! u)"
      by blast
    have "exec (\<lambda>t. (d, k)) ((t, 0) # sch) c = exec (\<lambda>t. (d, k)) sch ?c'" using t r c by simp
    with sch c have "\<forall>u<length (snd c). finished (snd (exec (\<lambda>t. (d, k)) ((t, 0) # sch) c) ! u)"
      by simp
    then show ?thesis by blast
  qed
qed

lemma load_inv_init:
  "load_inv d k s0 (s0, replicate n Start)"
  by (simp add: load_inv_def before_load_def)

lemma load_inv_facts:
  assumes inv: "load_inv d k s0 (s, pcs)"
  shows "disk_reads s \<le> disk_reads s0 + 1"
    and "\<exists>b. \<forall>t<length pcs. \<forall>b'. given (pcs ! t) = Some b' \<longrightarrow>
           b' = b \<and> dev (bufs s b) = d \<and> blockno (bufs s b) = k \<and>
           b \<in> set (head s (hash_val k))"
    and "\<forall>t<length pcs. returned (pcs ! t) \<longrightarrow>
           disk_reads s = disk_reads s0 + 1 \<and>
           (\<forall>b. given (pcs ! t) = Some b \<longrightarrow> valid (bufs s b) = 1)"
    and "\<forall>t<length pcs. \<forall>u<length pcs. locking (pcs ! t) \<and> locking (pcs ! u) \<longrightarrow> t = u"
proof -
  from inv consider "before_load k s0 (s, pcs)" | b where "after_load d k s0 b (s, pcs)"
    by (auto simp: load_inv_def)
  then have "disk_reads s \<le> disk_reads s0 + 1 \<and>
    (\<exists>b. \<forall>t<length pcs. \<forall>b'. given (pcs ! t) = Some b' \<longrightarrow>
           b' = b \<and> dev (bufs s b) = d \<and> blockno (bufs s b) = k \<and>
           b \<in> set (head s (hash_val k))) \<and>
    (\<forall>t<length pcs. returned (pcs ! t) \<longrightarrow>
           disk_reads s = disk_reads s0 + 1 \<and>
           (\<forall>b. given (pcs ! t) = Some b \<longrightarrow> valid (bufs s b) = 1)) \<and>
    (\<forall>t<length pcs. \<forall>u<length pcs. locking (pcs ! t) \<and> locking (pcs ! u) \<longrightarrow> t = u)"
  proof cases
    case 1
    then have s: "s = s0"
      and who: "\<forall>t<length pcs. pcs ! t = Start \<or> pcs ! t = Missed \<or> pcs ! t = Dead"
      by (auto simp: before_load_def)
    have g: "\<forall>t<length pcs. given (pcs ! t) = None \<and> \<not> returned (pcs ! t) \<and> \<not> locking (pcs ! t)"
      using who by auto
    show ?thesis using s g by auto
  next
    case 2
    then have sk: "scan_key (bufs s) d k (head s (hash_val k)) = Some b"
      and who: "\<forall>t<length pcs. pcs ! t = Start \<or> pcs ! t = Missed \<or> given (pcs ! t) = Some b"
      and lk: "\<forall>u<length pcs. locking (pcs ! u) \<longleftrightarrow> lock_holder (bufs s b) = Some u"
      and rd: "(valid (bufs s b) = 0 \<and> disk_reads s = disk_reads s0 \<and>
                (\<forall>u<length pcs. \<not> returned (pcs ! u))) \<or>
               (valid (bufs s b) = 1 \<and> disk_reads s = disk_reads s0 + 1)"
      by (simp_all add: after_load_def)
    note key = scan_key_Some_key [OF sk]
    have a: "disk_reads s \<le> disk_reads s0 + 1" using rd by auto
    have b: "\<forall>t<length pcs. \<forall>b'. given (pcs ! t) = Some b' \<longrightarrow>
           b' = b \<and> dev (bufs s b) = d \<and> blockno (bufs s b) = k \<and>
           b \<in> set (head s (hash_val k))"
      using who key by auto
    have c: "\<forall>t<length pcs. returned (pcs ! t) \<longrightarrow>
           disk_reads s = disk_reads s0 + 1 \<and>
           (\<forall>b. given (pcs ! t) = Some b \<longrightarrow> valid (bufs s b) = 1)"
      using who rd by auto
    have d: "\<forall>t<length pcs. \<forall>u<length pcs. locking (pcs ! t) \<and> locking (pcs ! u) \<longrightarrow> t = u"
      using lk by auto
    from a b c d show ?thesis by blast
  qed
  then show "disk_reads s \<le> disk_reads s0 + 1"
    and "\<exists>b. \<forall>t<length pcs. \<forall>b'. given (pcs ! t) = Some b' \<longrightarrow>
           b' = b \<and> dev (bufs s b) = d \<and> blockno (bufs s b) = k \<and>
           b \<in> set (head s (hash_val k))"
    and "\<forall>t<length pcs. returned (pcs ! t) \<longrightarrow>
           disk_reads s = disk_reads s0 + 1 \<and>
           (\<forall>b. given (pcs ! t) = Some b \<longrightarrow> valid (bufs s b) = 1)"
    and "\<forall>t<length pcs. \<forall>u<length pcs. locking (pcs ! t) \<and> locking (pcs ! u) \<longrightarrow> t = u"
    by blast+
qed

text \<open>
  Calls for another key: what they leave in place of the buffer that holds the key.
\<close>

lemma scan_key_remove1_other:
  "scan_key bf d k xs = Some b \<Longrightarrow> v \<noteq> b \<Longrightarrow> scan_key bf d k (remove1 v xs) = Some b"
  by (induction xs) (auto split: if_splits)

lemma scan_key_upd_other:
  "scan_key bf d k xs = Some b \<Longrightarrow> v \<noteq> b \<Longrightarrow> \<not> (dev nv = d \<and> blockno nv = k) \<Longrightarrow>
   scan_key (bf(v := nv)) d k xs = Some b"
  by (induction xs) (auto split: if_splits)

lemma scan_key_recycle_other:
  assumes found: "scan_key (bufs s) d k (head s h) = Some b"
    and ne: "v \<noteq> b" and other: "d' \<noteq> d \<or> k' \<noteq> k"
  shows "scan_key (bufs (recycle d' k' h' v s)) d k (head (recycle d' k' h' v s) h) = Some b"
proof -
  let ?nv = "(bufs s v)\<lparr>dev := d', blockno := k', valid := 0, refcnt := 1\<rparr>"
  have nk: "\<not> (dev ?nv = d \<and> blockno ?nv = k)" using other by auto
  have "scan_key (bufs s) d k (remove1 v (head s h)) = Some b"
    using found ne by (rule scan_key_remove1_other)
  then have r: "scan_key ((bufs s)(v := ?nv)) d k (remove1 v (head s h)) = Some b"
    using ne nk by (rule scan_key_upd_other)
  show ?thesis
  proof (cases "h = h'")
    case True
    with r other show ?thesis by (auto simp: bufs_recycle head_recycle)
  next
    case False
    with r show ?thesis by (simp add: bufs_recycle head_recycle)
  qed
qed

lemma disk_reads_recycle: "disk_reads (recycle d k h b s) = disk_reads s"
  by (simp add: recycle_def buf_upd_def link_front_def unlink_def)

lemma bget_choose_other_key:
  assumes found: "scan_key (bufs s) d k (head s (hash_val k)) = Some b"
    and ref: "refcnt (bufs s b) \<noteq> 0" and other: "d' \<noteq> d \<or> k' \<noteq> k"
    and run: "bget_choose ticks d' k' s = (r, s', tr)"
  shows "scan_key (bufs s') d k (head s' (hash_val k)) = Some b"
    and "bufs s' b = bufs s b" and "r \<noteq> Inr b" and "disk_reads s' = disk_reads s"
proof -
  have kb: "dev (bufs s b) = d \<and> blockno (bufs s b) = k"
    using scan_key_Some_key [OF found] by simp
  have all: "scan_key (bufs s') d k (head s' (hash_val k)) = Some b \<and>
     bufs s' b = bufs s b \<and> r \<noteq> Inr b \<and> disk_reads s' = disk_reads s"
  proof (cases "scan_key (bufs s) d' k' (head s (hash_val k'))")
    case (Some x)
    have kx: "dev (bufs s x) = d' \<and> blockno (bufs s x) = k'"
      using scan_key_Some_key [OF Some] by simp
    with kb other have ne: "x \<noteq> b" by auto
    from run Some have r: "r = Inr x" and s': "s' = take_ref ticks x s"
      by (simp_all add: bget_choose_hit)
    have "scan_key (bufs s') d k (head s' (hash_val k)) = Some b"
      using found by (simp add: s' bufs_take_ref head_take_ref scan_key_upd)
    moreover have "bufs s' b = bufs s b" using ne by (simp add: s' bufs_take_ref)
    ultimately show ?thesis using ne r by (simp add: s' disk_reads_take_ref)
  next
    case None
    obtain e s1 tr1 where ev: "evict d' k' (hash_val k') 0 s = (e, s1, tr1)"
      by (cases "evict d' k' (hash_val k') 0 s") auto
    show ?thesis
    proof (cases e)
      case None
      with ev have "s1 = s" using evict_None by blast
      with run \<open>scan_key (bufs s) d' k' (head s (hash_val k')) = None\<close> ev None found
      show ?thesis by (auto simp: bget_choose_miss bget_slow_miss)
    next
      case (Some v)
      with ev have e: "evict d' k' (hash_val k') 0 s = (Some v, s1, tr1)" by simp
      from evict_Some [OF e] obtain j where
        free: "scan_free (bufs s) (rev (head s j)) = Some v"
        and s1: "s1 = recycle d' k' (hash_val k') v s" by blast
      from scan_free_Some [OF free] have "refcnt (bufs s v) = 0" by blast
      with ref have ne: "v \<noteq> b" by auto
      from run \<open>scan_key (bufs s) d' k' (head s (hash_val k')) = None\<close> e
      have r: "r = Inr v" and s': "s' = s1"
        by (simp_all add: bget_choose_miss bget_slow_miss)
      have "scan_key (bufs s') d k (head s' (hash_val k)) = Some b"
        unfolding s' s1 using found ne other by (rule scan_key_recycle_other)
      moreover have "bufs s' b = bufs s b" using ne by (simp add: s' s1 bufs_recycle)
      ultimately show ?thesis using ne r by (simp add: s' s1 disk_reads_recycle)
    qed
  qed
  then show "scan_key (bufs s') d k (head s' (hash_val k)) = Some b"
    and "bufs s' b = bufs s b" and "r \<noteq> Inr b" and "disk_reads s' = disk_reads s"
    by simp_all
qed

lemma bread_other_key:
  assumes found: "scan_key (bufs s) d k (head s (hash_val k)) = Some b"
    and ref: "refcnt (bufs s b) \<noteq> 0" and other: "d' \<noteq> d \<or> k' \<noteq> k"
    and run: "bread pid ticks d' k' s = (r, s', tr)"
  shows "scan_key (bufs s') d k (head s' (hash_val k)) = Some b \<and> bufs s' b = bufs s b \<and>
         r \<noteq> Returned b \<and> r \<noteq> Sleeping b"
proof -
  obtain r1 s1 tr1 where c: "bget_choose ticks d' k' s = (r1, s1, tr1)"
    by (cases "bget_choose ticks d' k' s") auto
  note keep = bget_choose_other_key [OF found ref other c]
  show ?thesis
  proof (cases r1)
    case (Inl e)
    with c run keep show ?thesis by (auto simp: bread_def bget_def)
  next
    case (Inr x)
    with keep have ne: "x \<noteq> b" by auto
    show ?thesis
    proof (cases "acquiresleep pid x s1")
      case None
      with c Inr run keep ne show ?thesis by (auto simp: bread_def bget_def)
    next
      case (Some s2)
      then have s2: "s2 = buf_upd x (\<lambda>y. y\<lparr>lock_holder := Some pid\<rparr>) s1"
        by (simp add: acquiresleep_def split: if_splits)
      from c Inr Some run have r: "r = Returned x" and s': "s' = bread_fill x s2"
        by (simp_all add: bread_def bget_def)
      have hd: "head s' = head s1"
        by (simp add: s' s2 bread_fill_def virtio_disk_rw_def buf_upd_def Let_def)
      have ky: "\<And>y. dev (bufs s' y) = dev (bufs s1 y) \<and> blockno (bufs s' y) = blockno (bufs s1 y)"
        by (simp add: s' s2 bread_fill_def virtio_disk_rw_def buf_upd_def Let_def)
      have same: "bufs s' b = bufs s1 b"
        using ne by (simp add: s' s2 bread_fill_def virtio_disk_rw_def buf_upd_def Let_def)
      have "scan_key (bufs s') d k (head s1 (hash_val k))
            = scan_key (bufs s1) d k (head s1 (hash_val k))"
        by (rule scan_key_cong) (rule ky)
      then have "scan_key (bufs s') d k (head s' (hash_val k)) = Some b"
        using keep(1) by (simp add: hd)
      moreover have "bufs s' b = bufs s b" using keep(2) same by simp
      ultimately show ?thesis using r ne by simp
    qed
  qed
qed

lemma brelse_other_key:
  assumes found: "scan_key (bufs s) d k (head s (hash_val k)) = Some b"
    and other: "\<not> (dev (bufs s x) = d \<and> blockno (bufs s x) = k)"
    and run: "fst (brelse pid x s) = Inr s'"
  shows "scan_key (bufs s') d k (head s' (hash_val k)) = Some b \<and> bufs s' b = bufs s b"
proof -
  have kb: "dev (bufs s b) = d \<and> blockno (bufs s b) = k"
    using scan_key_Some_key [OF found] by simp
  with other have ne: "x \<noteq> b" by auto
  have held: "holdingsleep pid x s"
    using run by (cases "holdingsleep pid x s") (simp_all add: brelse_def)
  from run held have s': "s' = brelse_unref x (releasesleep x s)"
    by (simp add: brelse_def Let_def)
  have ky: "\<And>y. dev (bufs s' y) = dev (bufs s y) \<and> blockno (bufs s' y) = blockno (bufs s y)"
    by (simp add: s' brelse_unref_def releasesleep_def buf_upd_def link_front_def
        unlink_def Let_def)
  have same: "bufs s' b = bufs s b"
    using ne
    by (simp add: s' brelse_unref_def releasesleep_def buf_upd_def link_front_def
        unlink_def Let_def)
  have hd: "head s' (hash_val k) = head s (hash_val k) \<or>
            head s' (hash_val k) = remove1 x (head s (hash_val k)) \<or>
            head s' (hash_val k) = x # remove1 x (head s (hash_val k))"
    by (simp add: s' brelse_unref_def releasesleep_def buf_upd_def link_front_def
        unlink_def Let_def)
  have cong: "\<And>xs. scan_key (bufs s') d k xs = scan_key (bufs s) d k xs"
    by (rule scan_key_cong) (rule ky)
  have a: "scan_key (bufs s') d k (head s (hash_val k)) = Some b"
    using found by (simp add: cong)
  then have b: "scan_key (bufs s') d k (remove1 x (head s (hash_val k))) = Some b"
    using ne by (rule scan_key_remove1_other)
  have c: "scan_key (bufs s') d k (x # remove1 x (head s (hash_val k))) = Some b"
    using b other ky [of x] by auto
  from hd a b c have "scan_key (bufs s') d k (head s' (hash_val k)) = Some b" by auto
  with same show ?thesis by simp
qed

text \<open>What \<open>bread\<close> adds to \<open>bget\<close>.\<close>

lemma disk_reads_bget_choose:
  "bget_choose ticks d k s = (r, s', tr) \<Longrightarrow> disk_reads s' = disk_reads s"
proof (cases "scan_key (bufs s) d k (head s (hash_val k))")
  case (Some b)
  assume "bget_choose ticks d k s = (r, s', tr)"
  with Some show ?thesis by (auto simp: bget_choose_hit disk_reads_take_ref)
next
  case None
  assume run: "bget_choose ticks d k s = (r, s', tr)"
  obtain e s1 tr1 where ev: "evict d k (hash_val k) 0 s = (e, s1, tr1)"
    by (cases "evict d k (hash_val k) 0 s") auto
  show ?thesis
  proof (cases e)
    case None
    with ev have "s1 = s" using evict_None by blast
    with run \<open>scan_key (bufs s) d k (head s (hash_val k)) = None\<close> ev None
    show ?thesis by (auto simp: bget_choose_miss bget_slow_miss)
  next
    case (Some v)
    with ev have "s1 = recycle d k (hash_val k) v s" using evict_Some by blast
    with run \<open>scan_key (bufs s) d k (head s (hash_val k)) = None\<close> ev Some
    show ?thesis by (auto simp: bget_choose_miss bget_slow_miss disk_reads_recycle)
  qed
qed

lemma bread_reads:
  assumes ret: "bread pid ticks d k s = (Returned b, s', tr)"
  shows "\<exists>sg. bget pid ticks d k s = (Returned b, sg, tr) \<and>
           disk_reads sg = disk_reads s \<and>
           (valid (bufs sg b) = 0 \<longrightarrow>
              disk_reads s' = disk_reads s + 1 \<and> valid (bufs s' b) = 1 \<and>
              data (bufs s' b) = disk sg (dev (bufs sg b), blockno (bufs sg b))) \<and>
           (valid (bufs sg b) \<noteq> 0 \<longrightarrow> s' = sg)"
proof -
  obtain r1 sg tr1 where g: "bget pid ticks d k s = (r1, sg, tr1)"
    by (cases "bget pid ticks d k s") auto
  with ret have r1: "r1 = Returned b" and tr: "tr1 = tr" and s': "s' = bread_fill b sg"
    by (cases r1; simp add: bread_def)+
  obtain r2 s2 tr2 where c: "bget_choose ticks d k s = (r2, s2, tr2)"
    by (cases "bget_choose ticks d k s") auto
  with g r1 have acq: "acquiresleep pid b s2 = Some sg"
    by (cases r2; auto simp: bget_def split: option.splits)
  have "disk_reads sg = disk_reads s2"
    using acq by (auto simp: acquiresleep_def buf_upd_def split: if_splits)
  moreover have "disk_reads s2 = disk_reads s" using c by (rule disk_reads_bget_choose)
  ultimately have rd: "disk_reads sg = disk_reads s" by simp
  show ?thesis
    using g r1 tr rd
    by (auto simp: s' bread_fill_def virtio_disk_rw_def buf_upd_def Let_def)
qed

text \<open>
  The steps are the pieces of \<open>bread\<close> and \<open>brelse\<close>: a process that runs without
  interruption goes through them to the result of the sequential functions.
\<close>

lemma steps_bread_returned:
  assumes t: "t < length pcs" and start: "pcs ! t = Start" and key: "keys t = (d, k)"
    and ret: "bread t ticks d k s = (Returned b, s', tr)"
  shows "\<exists>m\<le>4. exec keys (replicate m (t, ticks)) (s, pcs) = (s', pcs[t := Using b])"
proof -
  obtain r1 s1 tr1 where g: "bget t ticks d k s = (r1, s1, tr1)"
    by (cases "bget t ticks d k s") auto
  with ret have r1: "r1 = Returned b" and s': "s' = bread_fill b s1"
    by (cases r1; simp add: bread_def)+
  obtain r2 s2 tr2 where c: "bget_choose ticks d k s = (r2, s2, tr2)"
    by (cases "bget_choose ticks d k s") auto
  with g r1 have r2: "r2 = Inr b" and acq: "acquiresleep t b s2 = Some s1"
    by (cases r2; auto simp: bget_def split: option.splits)+
  show ?thesis
  proof (cases "scan_key (bufs s) d k (head s (hash_val k))")
    case (Some b')
    with c r2 have b': "b' = b" and s2: "s2 = take_ref ticks b s"
      by (auto simp: bget_choose_hit)
    have 1: "thread_step d k ticks t Start s = Some (WaitSleep b, s2)"
      using Some b' s2 by (simp add: thread_step_def bget_fast_def Let_def)
    have 2: "thread_step d k ticks t (WaitSleep b) s2 = Some (Holding b, s1)"
      using acq by (simp add: thread_step_def)
    have 3: "thread_step d k ticks t (Holding b) s1 = Some (Using b, s')"
      by (simp add: thread_step_def s')
    have three: "replicate 3 (t, ticks) = [(t, ticks), (t, ticks), (t, ticks)]"
      by (simp add: eval_nat_numeral)
    have "exec keys (replicate 3 (t, ticks)) (s, pcs) = (s', pcs[t := Using b])"
      unfolding three using t start key 1 2 3 by simp
    then show ?thesis by (intro exI [of _ 3]) simp
  next
    case None
    with c r2 have slow: "bget_slow ticks d k s = (Inr b, s2, drop 2 tr2)"
      by (cases "bget_slow ticks d k s") (auto simp: bget_choose_miss)
    have 1: "thread_step d k ticks t Start s = Some (Missed, s)"
      using None by (simp add: thread_step_def bget_fast_def Let_def)
    have 2: "thread_step d k ticks t Missed s = Some (WaitSleep b, s2)"
      using slow by (simp add: thread_step_def)
    have 3: "thread_step d k ticks t (WaitSleep b) s2 = Some (Holding b, s1)"
      using acq by (simp add: thread_step_def)
    have 4: "thread_step d k ticks t (Holding b) s1 = Some (Using b, s')"
      by (simp add: thread_step_def s')
    have four: "replicate 4 (t, ticks) = [(t, ticks), (t, ticks), (t, ticks), (t, ticks)]"
      by (simp add: eval_nat_numeral)
    have "exec keys (replicate 4 (t, ticks)) (s, pcs) = (s', pcs[t := Using b])"
      unfolding four using t start key 1 2 3 4 by simp
    then show ?thesis by (intro exI [of _ 4]) simp
  qed
qed

lemma steps_bread_sleeping:
  assumes t: "t < length pcs" and start: "pcs ! t = Start" and key: "keys t = (d, k)"
    and ret: "bread t ticks d k s = (Sleeping b, s', tr)"
  shows "(\<exists>m\<le>2. exec keys (replicate m (t, ticks)) (s, pcs) = (s', pcs[t := WaitSleep b])) \<and>
         thread_step d k ticks t (WaitSleep b) s' = None"
proof -
  obtain r1 s1 tr1 where g: "bget t ticks d k s = (r1, s1, tr1)"
    by (cases "bget t ticks d k s") auto
  with ret have r1: "r1 = Sleeping b" and s': "s' = s1"
    by (cases r1; simp add: bread_def)+
  obtain r2 s2 tr2 where c: "bget_choose ticks d k s = (r2, s2, tr2)"
    by (cases "bget_choose ticks d k s") auto
  with g r1 have r2: "r2 = Inr b" and acq: "acquiresleep t b s2 = None" and s2: "s2 = s1"
    by (cases r2; auto simp: bget_def split: option.splits)+
  have stuck: "thread_step d k ticks t (WaitSleep b) s' = None"
    using acq by (simp add: thread_step_def s' s2)
  have run: "\<exists>m\<le>2. exec keys (replicate m (t, ticks)) (s, pcs) = (s', pcs[t := WaitSleep b])"
  proof (cases "scan_key (bufs s) d k (head s (hash_val k))")
    case (Some b')
    with c r2 have b': "b' = b" and s2': "s2 = take_ref ticks b s"
      by (auto simp: bget_choose_hit)
    have 1: "thread_step d k ticks t Start s = Some (WaitSleep b, s')"
      using Some b' s2' by (simp add: thread_step_def bget_fast_def Let_def s' s2)
    have "exec keys (replicate 1 (t, ticks)) (s, pcs) = (s', pcs[t := WaitSleep b])"
      using t start key 1 by simp
    then show ?thesis by (intro exI [of _ 1]) simp
  next
    case None
    with c r2 have slow: "bget_slow ticks d k s = (Inr b, s2, drop 2 tr2)"
      by (cases "bget_slow ticks d k s") (auto simp: bget_choose_miss)
    have 1: "thread_step d k ticks t Start s = Some (Missed, s)"
      using None by (simp add: thread_step_def bget_fast_def Let_def)
    have 2: "thread_step d k ticks t Missed s = Some (WaitSleep b, s')"
      using slow by (simp add: thread_step_def s' s2)
    have two: "replicate 2 (t, ticks) = [(t, ticks), (t, ticks)]"
      by (simp add: eval_nat_numeral)
    have "exec keys (replicate 2 (t, ticks)) (s, pcs) = (s', pcs[t := WaitSleep b])"
      unfolding two using t start key 1 2 by simp
    then show ?thesis by (intro exI [of _ 2]) simp
  qed
  from run stuck show ?thesis by (rule conjI)
qed

lemma steps_bread_panicked:
  assumes t: "t < length pcs" and start: "pcs ! t = Start" and key: "keys t = (d, k)"
    and ret: "bread t ticks d k s = (Panicked e, s', tr)"
  shows "exec keys [(t, ticks), (t, ticks)] (s, pcs) = (s', pcs[t := Dead])"
proof -
  obtain r1 s1 tr1 where g: "bget t ticks d k s = (r1, s1, tr1)"
    by (cases "bget t ticks d k s") auto
  with ret have r1: "r1 = Panicked e" and s': "s' = s1"
    by (cases r1; simp add: bread_def)+
  obtain r2 s2 tr2 where c: "bget_choose ticks d k s = (r2, s2, tr2)"
    by (cases "bget_choose ticks d k s") auto
  with g r1 have r2: "r2 = Inl e" and s2: "s2 = s1"
    by (cases r2; auto simp: bget_def split: option.splits)+
  have None: "scan_key (bufs s) d k (head s (hash_val k)) = None"
  proof (cases "scan_key (bufs s) d k (head s (hash_val k))")
    case (Some b')
    with c r2 show ?thesis by (simp add: bget_choose_hit)
  qed simp
  with c r2 have slow: "bget_slow ticks d k s = (Inl e, s2, drop 2 tr2)"
    by (cases "bget_slow ticks d k s") (auto simp: bget_choose_miss)
  have 1: "thread_step d k ticks t Start s = Some (Missed, s)"
    using None by (simp add: thread_step_def bget_fast_def Let_def)
  have 2: "thread_step d k ticks t Missed s = Some (Dead, s')"
    using slow by (simp add: thread_step_def s' s2)
  show ?thesis using t start key 1 2 by simp
qed

lemma steps_brelse:
  assumes t: "t < length pcs" and at: "pcs ! t = Using b" and key: "keys t = (d, k)"
  shows "(\<forall>s'. fst (brelse t b s) = Inr s' \<longrightarrow>
            exec keys [(t, x), (t, y)] (s, pcs) = (s', pcs[t := Done b])) \<and>
         (\<forall>e. fst (brelse t b s) = Inl e \<longrightarrow>
            exec keys [(t, x)] (s, pcs) = (s, pcs[t := Dead]))"
proof (intro conjI allI impI)
  fix s' assume ret: "fst (brelse t b s) = Inr s'"
  have held: "holdingsleep t b s"
    using ret by (cases "holdingsleep t b s") (simp_all add: brelse_def)
  with ret have s': "s' = brelse_unref b (releasesleep b s)"
    by (simp add: brelse_def Let_def)
  have 1: "thread_step d k x t (Using b) s = Some (Releasing b, releasesleep b s)"
    using held by (simp add: thread_step_def)
  have 2: "thread_step d k y t (Releasing b) (releasesleep b s) = Some (Done b, s')"
    by (simp add: thread_step_def s')
  show "exec keys [(t, x), (t, y)] (s, pcs) = (s', pcs[t := Done b])"
    using t at key 1 2 by simp
next
  fix e assume ret: "fst (brelse t b s) = Inl e"
  have nheld: "\<not> holdingsleep t b s"
    using ret by (cases "holdingsleep t b s") (simp_all add: brelse_def Let_def)
  have 1: "thread_step d k x t (Using b) s = Some (Dead, s)"
    using nheld by (simp add: thread_step_def)
  show "exec keys [(t, x)] (s, pcs) = (s, pcs[t := Dead])"
    using t at key 1 by simp
qed

text \<open>
  Claim C3, as the code has it.
  \<^item> (1) Whatever the cache is, the slow path of \<open>bget\<close> first takes the global lock and
    then the lock of the target bucket.
  \<^item> (2) If the key is on the target bucket when the slow path runs, whatever the fast
    path saw before, the call is a hit: it returns the buffer the scan finds, adds 1 to
    its \<open>refcnt\<close>, stamps it, releases the two locks, moves no buffer and reads nothing.
  \<^item> (3) A call of \<open>bread\<close> that returns has got its buffer from \<open>bget\<close>, which reads
    nothing; when the buffer is not valid, \<open>bread\<close> reads one block, the one the buffer
    names, into the buffer and makes it valid; when it is valid, \<open>bread\<close> does no more
    than \<open>bget\<close>.
  \<^item> (4) The steps of a process are the pieces of \<open>bread\<close> and \<open>brelse\<close>: run without
    interruption, they lead from \<open>Start\<close> to the outcome and the state of \<open>bread\<close>, and
    from there to the state of \<open>brelse\<close>.
  \<^item> (5) Let \<open>n\<close> processes run \<open>bread\<close> and then \<open>brelse\<close> for a key that is on no buffer
    of its bucket, in a cache whose free buffers are not locked, and let no other
    process use the cache. Then after every schedule: at most one block has been read;
    all processes that were given a buffer were given the same one, which has the key
    and is on the target bucket; once a process is back from \<open>bread\<close> exactly one block
    has been read and the buffer is valid; at most one process holds the sleep-lock. If
    some bucket other than the target has a free buffer, no process has panicked and
    the schedule can be continued until every process has finished.
  \<^item> (6) A \<open>bread\<close> of another key, whatever its outcome, leaves the buffer that holds
    the key where the scan finds it, and unchanged, as long as its \<open>refcnt\<close> is not 0;
    so does a \<open>brelse\<close> of a buffer of another key.
\<close>

theorem bread_same_key:
  assumes uncached: "scan_key (bufs s0) d k (head s0 (hash_val k)) = None"
    and unlocked: "\<forall>b. refcnt (bufs s0 b) = 0 \<longrightarrow> lock_holder (bufs s0 b) = None"
    and run: "exec (\<lambda>t. (d, k)) sch (s0, replicate n Start) = (s, pcs)"
  shows
    "(\<forall>ticks s1. \<exists>tr. snd (snd (bget_slow ticks d k s1))
        = Acquire BcacheLock # Acquire (HashLock (hash_val k)) # tr) \<and>
     (\<forall>ticks s1 b. scan_key (bufs s1) d k (head s1 (hash_val k)) = Some b \<longrightarrow>
        (\<exists>s1'. bget_slow ticks d k s1 =
                 (Inr b, s1',
                  [Acquire BcacheLock, Acquire (HashLock (hash_val k)),
                   Release (HashLock (hash_val k)), Release BcacheLock]) \<and>
               bufs s1' = (bufs s1)(b := (bufs s1 b)\<lparr>refcnt := refcnt (bufs s1 b) + 1,
                                                      lru_timestamp := ticks\<rparr>) \<and>
               head s1' = head s1 \<and> disk_reads s1' = disk_reads s1)) \<and>
     (\<forall>pid ticks s1 b s1' tr. bread pid ticks d k s1 = (Returned b, s1', tr) \<longrightarrow>
        (\<exists>sg. bget pid ticks d k s1 = (Returned b, sg, tr) \<and>
              disk_reads sg = disk_reads s1 \<and>
              (valid (bufs sg b) = 0 \<longrightarrow>
                 disk_reads s1' = disk_reads s1 + 1 \<and> valid (bufs s1' b) = 1 \<and>
                 data (bufs s1' b) = disk sg (dev (bufs sg b), blockno (bufs sg b))) \<and>
              (valid (bufs sg b) \<noteq> 0 \<longrightarrow> s1' = sg))) \<and>
     (\<forall>keys t qs ticks s1 r s1' tr.
        t < length qs \<and> qs ! t = Start \<and> keys t = (d, k) \<and>
        bread t ticks d k s1 = (r, s1', tr) \<longrightarrow>
        (case r of
           Returned b \<Rightarrow>
             (\<exists>m\<le>4. exec keys (replicate m (t, ticks)) (s1, qs) = (s1', qs[t := Using b]))
         | Sleeping b \<Rightarrow>
             (\<exists>m\<le>2. exec keys (replicate m (t, ticks)) (s1, qs) = (s1', qs[t := WaitSleep b])) \<and>
             thread_step d k ticks t (WaitSleep b) s1' = None
         | Panicked e \<Rightarrow>
             exec keys [(t, ticks), (t, ticks)] (s1, qs) = (s1', qs[t := Dead]))) \<and>
     (\<forall>keys t qs x y s1 b.
        t < length qs \<and> qs ! t = Using b \<and> keys t = (d, k) \<longrightarrow>
        (\<forall>s1'. fst (brelse t b s1) = Inr s1' \<longrightarrow>
           exec keys [(t, x), (t, y)] (s1, qs) = (s1', qs[t := Done b])) \<and>
        (\<forall>e. fst (brelse t b s1) = Inl e \<longrightarrow>
           exec keys [(t, x)] (s1, qs) = (s1, qs[t := Dead]))) \<and>
     length pcs = n \<and>
     disk_reads s \<le> disk_reads s0 + 1 \<and>
     (\<exists>b. \<forall>t<n. \<forall>b'. given (pcs ! t) = Some b' \<longrightarrow>
           b' = b \<and> dev (bufs s b) = d \<and> blockno (bufs s b) = k \<and>
           b \<in> set (head s (hash_val k))) \<and>
     (\<forall>t<n. returned (pcs ! t) \<longrightarrow>
           disk_reads s = disk_reads s0 + 1 \<and>
           (\<forall>b. given (pcs ! t) = Some b \<longrightarrow> valid (bufs s b) = 1)) \<and>
     (\<forall>t<n. \<forall>u<n. locking (pcs ! t) \<and> locking (pcs ! u) \<longrightarrow> t = u) \<and>
     (\<not> no_victim (hash_val k) s0 \<longrightarrow>
        (\<forall>t<n. pcs ! t \<noteq> Dead) \<and>
        (\<exists>sch'. \<forall>t<n. finished (snd (exec (\<lambda>t. (d, k)) sch' (s, pcs)) ! t))) \<and>
     (\<forall>d' k' pid ticks s1 b r s1' tr.
        scan_key (bufs s1) d k (head s1 (hash_val k)) = Some b \<and>
        refcnt (bufs s1 b) \<noteq> 0 \<and> (d' \<noteq> d \<or> k' \<noteq> k) \<and>
        bread pid ticks d' k' s1 = (r, s1', tr) \<longrightarrow>
        scan_key (bufs s1') d k (head s1' (hash_val k)) = Some b \<and>
        bufs s1' b = bufs s1 b \<and> r \<noteq> Returned b \<and> r \<noteq> Sleeping b) \<and>
     (\<forall>pid x s1 b s1'.
        scan_key (bufs s1) d k (head s1 (hash_val k)) = Some b \<and>
        \<not> (dev (bufs s1 x) = d \<and> blockno (bufs s1 x) = k) \<and>
        fst (brelse pid x s1) = Inr s1' \<longrightarrow>
        scan_key (bufs s1') d k (head s1' (hash_val k)) = Some b \<and>
        bufs s1' b = bufs s1 b)"
proof -
  have order: "\<forall>ticks s1. \<exists>tr. snd (snd (bget_slow ticks d k s1))
        = Acquire BcacheLock # Acquire (HashLock (hash_val k)) # tr"
    by (auto simp: bget_slow_def Let_def split: option.splits prod.splits)
  have hit: "\<forall>ticks s1 b. scan_key (bufs s1) d k (head s1 (hash_val k)) = Some b \<longrightarrow>
        (\<exists>s1'. bget_slow ticks d k s1 =
                 (Inr b, s1',
                  [Acquire BcacheLock, Acquire (HashLock (hash_val k)),
                   Release (HashLock (hash_val k)), Release BcacheLock]) \<and>
               bufs s1' = (bufs s1)(b := (bufs s1 b)\<lparr>refcnt := refcnt (bufs s1 b) + 1,
                                                      lru_timestamp := ticks\<rparr>) \<and>
               head s1' = head s1 \<and> disk_reads s1' = disk_reads s1)"
    by (simp add: bget_slow_hit bufs_take_ref head_take_ref disk_reads_take_ref)
  have fill: "\<forall>pid ticks s1 b s1' tr. bread pid ticks d k s1 = (Returned b, s1', tr) \<longrightarrow>
        (\<exists>sg. bget pid ticks d k s1 = (Returned b, sg, tr) \<and>
              disk_reads sg = disk_reads s1 \<and>
              (valid (bufs sg b) = 0 \<longrightarrow>
                 disk_reads s1' = disk_reads s1 + 1 \<and> valid (bufs s1' b) = 1 \<and>
                 data (bufs s1' b) = disk sg (dev (bufs sg b), blockno (bufs sg b))) \<and>
              (valid (bufs sg b) \<noteq> 0 \<longrightarrow> s1' = sg))"
    using bread_reads by blast
  have pieces: "\<forall>keys t qs ticks s1 r s1' tr.
        t < length qs \<and> qs ! t = Start \<and> keys t = (d, k) \<and>
        bread t ticks d k s1 = (r, s1', tr) \<longrightarrow>
        (case r of
           Returned b \<Rightarrow>
             (\<exists>m\<le>4. exec keys (replicate m (t, ticks)) (s1, qs) = (s1', qs[t := Using b]))
         | Sleeping b \<Rightarrow>
             (\<exists>m\<le>2. exec keys (replicate m (t, ticks)) (s1, qs) = (s1', qs[t := WaitSleep b])) \<and>
             thread_step d k ticks t (WaitSleep b) s1' = None
         | Panicked e \<Rightarrow>
             exec keys [(t, ticks), (t, ticks)] (s1, qs) = (s1', qs[t := Dead]))"
  proof (intro allI impI)
    fix keys :: "nat \<Rightarrow> u32 \<times> u32" and t qs ticks s1 r s1' tr
    assume a: "t < length qs \<and> qs ! t = Start \<and> keys t = (d, k) \<and>
        bread t ticks d k s1 = (r, s1', tr)"
    then have t: "t < length qs" and st: "qs ! t = Start" and key: "keys t = (d, k)"
      and ret: "bread t ticks d k s1 = (r, s1', tr)" by simp_all
    show "case r of
           Returned b \<Rightarrow>
             (\<exists>m\<le>4. exec keys (replicate m (t, ticks)) (s1, qs) = (s1', qs[t := Using b]))
         | Sleeping b \<Rightarrow>
             (\<exists>m\<le>2. exec keys (replicate m (t, ticks)) (s1, qs) = (s1', qs[t := WaitSleep b])) \<and>
             thread_step d k ticks t (WaitSleep b) s1' = None
         | Panicked e \<Rightarrow>
             exec keys [(t, ticks), (t, ticks)] (s1, qs) = (s1', qs[t := Dead])"
    proof (cases r)
      case (Returned b)
      with ret have "bread t ticks d k s1 = (Returned b, s1', tr)" by simp
      with t st key
      have "\<exists>m\<le>4. exec keys (replicate m (t, ticks)) (s1, qs) = (s1', qs[t := Using b])"
        by (rule steps_bread_returned)
      with Returned show ?thesis by simp
    next
      case (Panicked e)
      with ret have "bread t ticks d k s1 = (Panicked e, s1', tr)" by simp
      with t st key
      have "exec keys [(t, ticks), (t, ticks)] (s1, qs) = (s1', qs[t := Dead])"
        by (rule steps_bread_panicked)
      with Panicked show ?thesis by simp
    next
      case (Sleeping b)
      with ret have "bread t ticks d k s1 = (Sleeping b, s1', tr)" by simp
      with t st key
      have "(\<exists>m\<le>2. exec keys (replicate m (t, ticks)) (s1, qs) = (s1', qs[t := WaitSleep b])) \<and>
            thread_step d k ticks t (WaitSleep b) s1' = None"
        by (rule steps_bread_sleeping)
      with Sleeping show ?thesis by simp
    qed
  qed
  have release: "\<forall>keys t qs x y s1 b.
        t < length qs \<and> qs ! t = Using b \<and> keys t = (d, k) \<longrightarrow>
        (\<forall>s1'. fst (brelse t b s1) = Inr s1' \<longrightarrow>
           exec keys [(t, x), (t, y)] (s1, qs) = (s1', qs[t := Done b])) \<and>
        (\<forall>e. fst (brelse t b s1) = Inl e \<longrightarrow>
           exec keys [(t, x)] (s1, qs) = (s1, qs[t := Dead]))"
  proof (intro allI impI)
    fix keys :: "nat \<Rightarrow> u32 \<times> u32" and t qs x y s1 b
    assume "t < length qs \<and> qs ! t = Using b \<and> keys t = (d, k)"
    then have t: "t < length qs" and at: "qs ! t = Using b" and key: "keys t = (d, k)"
      by simp_all
    show "(\<forall>s1'. fst (brelse t b s1) = Inr s1' \<longrightarrow>
           exec keys [(t, x), (t, y)] (s1, qs) = (s1', qs[t := Done b])) \<and>
        (\<forall>e. fst (brelse t b s1) = Inl e \<longrightarrow>
           exec keys [(t, x)] (s1, qs) = (s1, qs[t := Dead]))"
      using t at key by (rule steps_brelse)
  qed
  have len: "length pcs = n"
    using length_exec [of "\<lambda>t. (d, k)" sch "(s0, replicate n Start)"] run by simp
  have inv: "load_inv d k s0 (s, pcs)"
    using load_inv_exec [OF uncached unlocked load_inv_init, of sch n] run by simp
  note facts = load_inv_facts [OF inv, unfolded len]
  have live: "\<not> no_victim (hash_val k) s0 \<longrightarrow>
        (\<forall>t<n. pcs ! t \<noteq> Dead) \<and>
        (\<exists>sch'. \<forall>t<n. finished (snd (exec (\<lambda>t. (d, k)) sch' (s, pcs)) ! t))"
  proof
    assume victim: "\<not> no_victim (hash_val k) s0"
    have "\<forall>t<n. pcs ! t \<noteq> Dead"
      using load_inv_alive [OF inv victim] len by simp
    moreover have "\<exists>sch'. \<forall>t<n. finished (snd (exec (\<lambda>t. (d, k)) sch' (s, pcs)) ! t)"
      using load_inv_completes [OF uncached unlocked victim inv] len by simp
    ultimately show "(\<forall>t<n. pcs ! t \<noteq> Dead) \<and>
        (\<exists>sch'. \<forall>t<n. finished (snd (exec (\<lambda>t. (d, k)) sch' (s, pcs)) ! t))"
      by (rule conjI)
  qed
  have other_bread: "\<forall>d' k' pid ticks s1 b r s1' tr.
        scan_key (bufs s1) d k (head s1 (hash_val k)) = Some b \<and>
        refcnt (bufs s1 b) \<noteq> 0 \<and> (d' \<noteq> d \<or> k' \<noteq> k) \<and>
        bread pid ticks d' k' s1 = (r, s1', tr) \<longrightarrow>
        scan_key (bufs s1') d k (head s1' (hash_val k)) = Some b \<and>
        bufs s1' b = bufs s1 b \<and> r \<noteq> Returned b \<and> r \<noteq> Sleeping b"
  proof (intro allI impI)
    fix d' k' pid ticks s1 b r s1' tr
    assume "scan_key (bufs s1) d k (head s1 (hash_val k)) = Some b \<and>
        refcnt (bufs s1 b) \<noteq> 0 \<and> (d' \<noteq> d \<or> k' \<noteq> k) \<and>
        bread pid ticks d' k' s1 = (r, s1', tr)"
    then have a: "scan_key (bufs s1) d k (head s1 (hash_val k)) = Some b"
      and b: "refcnt (bufs s1 b) \<noteq> 0" and c: "d' \<noteq> d \<or> k' \<noteq> k"
      and e: "bread pid ticks d' k' s1 = (r, s1', tr)" by simp_all
    from a b c e show "scan_key (bufs s1') d k (head s1' (hash_val k)) = Some b \<and>
        bufs s1' b = bufs s1 b \<and> r \<noteq> Returned b \<and> r \<noteq> Sleeping b"
      by (rule bread_other_key)
  qed
  have other_brelse: "\<forall>pid x s1 b s1'.
        scan_key (bufs s1) d k (head s1 (hash_val k)) = Some b \<and>
        \<not> (dev (bufs s1 x) = d \<and> blockno (bufs s1 x) = k) \<and>
        fst (brelse pid x s1) = Inr s1' \<longrightarrow>
        scan_key (bufs s1') d k (head s1' (hash_val k)) = Some b \<and>
        bufs s1' b = bufs s1 b"
  proof (intro allI impI)
    fix pid x s1 b s1'
    assume "scan_key (bufs s1) d k (head s1 (hash_val k)) = Some b \<and>
        \<not> (dev (bufs s1 x) = d \<and> blockno (bufs s1 x) = k) \<and>
        fst (brelse pid x s1) = Inr s1'"
    then have a: "scan_key (bufs s1) d k (head s1 (hash_val k)) = Some b"
      and b: "\<not> (dev (bufs s1 x) = d \<and> blockno (bufs s1 x) = k)"
      and c: "fst (brelse pid x s1) = Inr s1'" by simp_all
    from a b c show "scan_key (bufs s1') d k (head s1' (hash_val k)) = Some b \<and>
        bufs s1' b = bufs s1 b"
      by (rule brelse_other_key)
  qed
  note closed = len facts live
  show ?thesis
    apply (rule conjI, rule order)
    apply (rule conjI, rule hit)
    apply (rule conjI, rule fill)
    apply (rule conjI, rule pieces)
    apply (rule conjI, rule release)
    apply (rule conjI, rule len)
    apply (rule conjI, rule facts(1))
    apply (rule conjI, rule facts(2))
    apply (rule conjI, rule facts(3))
    apply (rule conjI, rule facts(4))
    apply (rule conjI, rule live)
    apply (rule conjI, rule other_bread)
    apply (rule other_brelse)
    done
qed

lemma bcache_two_unlocked: "lock_holder (bufs bcache_two b) = None"
  by (simp add: bcache_two_def binit_def bcache_zero_def NUM_BUCKET_def upt_rec)

theorem bread_same_key_witness:
  "scan_key (bufs bcache_two) 0 2 (head bcache_two (hash_val 2)) = None \<and>
   (\<forall>b. lock_holder (bufs bcache_two b) = None) \<and>
   \<not> no_victim (hash_val 2) bcache_two \<and>
   snd (exec (\<lambda>t. (0, 2)) (take 4 two_readers) (bcache_two, replicate 2 Start))
     = [WaitSleep 0, WaitSleep 0] \<and>
   disk_reads (fst (exec (\<lambda>t. (0, 2)) (take 4 two_readers) (bcache_two, replicate 2 Start)))
     = disk_reads bcache_two \<and>
   snd (exec (\<lambda>t. (0, 2)) two_readers (bcache_two, replicate 2 Start)) = [Done 0, Done 0] \<and>
   disk_reads (fst (exec (\<lambda>t. (0, 2)) two_readers (bcache_two, replicate 2 Start)))
     = disk_reads bcache_two + 1 \<and>
   fst (bread 0 1 0 2 bcache_two) = Returned 0 \<and>
   disk_reads (fst (snd (bread 0 1 0 2 bcache_two))) = disk_reads bcache_two + 1 \<and>
   valid (bufs (fst (snd (bread 0 1 0 2 bcache_two))) 0) = 1"
proof -
  let ?c = "exec (\<lambda>t. (0, 2)) two_readers (bcache_two, replicate 2 Start)"
  let ?r = "bread 0 1 0 2 bcache_two"
  have un: "scan_key (bufs bcache_two) 0 2 (head bcache_two (hash_val 2)) = None"
    by code_simp
  have lk: "\<forall>b. refcnt (bufs bcache_two b) = 0 \<longrightarrow> lock_holder (bufs bcache_two b) = None"
    by (simp add: bcache_two_unlocked)
  have free: "scan_free (bufs bcache_two) (rev (head bcache_two 0)) = Some 0" by code_simp
  have victim: "\<not> no_victim (hash_val 2) bcache_two"
  proof
    assume "no_victim (hash_val 2) bcache_two"
    then have "scan_free (bufs bcache_two) (rev (head bcache_two 0)) = None"
      by (simp add: no_victim_def hash_val_2 NUM_BUCKET_def)
    with free show False by simp
  qed
  have mid: "snd (exec (\<lambda>t. (0, 2)) (take 4 two_readers) (bcache_two, replicate 2 Start))
     = [WaitSleep 0, WaitSleep 0]"
    by code_simp
  have mid_reads:
    "disk_reads (fst (exec (\<lambda>t. (0, 2)) (take 4 two_readers) (bcache_two, replicate 2 Start)))
     = disk_reads bcache_two"
    by code_simp
  have pcs: "snd ?c = [Done 0, Done 0]" by code_simp
  have run: "exec (\<lambda>t. (0, 2)) two_readers (bcache_two, replicate 2 Start) = (fst ?c, snd ?c)"
    by simp
  note inst = bread_same_key [OF un lk run]
  note once_back = inst [THEN conjunct2, THEN conjunct2, THEN conjunct2, THEN conjunct2,
      THEN conjunct2, THEN conjunct2, THEN conjunct2, THEN conjunct2, THEN conjunct1]
  from once_back
  have "\<forall>t<2. returned (snd ?c ! t) \<longrightarrow> disk_reads (fst ?c) = disk_reads bcache_two + 1"
    by blast
  then have "returned (snd ?c ! 0) \<longrightarrow> disk_reads (fst ?c) = disk_reads bcache_two + 1"
    by (drule_tac x = 0 in spec) simp
  then have reads: "disk_reads (fst ?c) = disk_reads bcache_two + 1"
    by (simp add: pcs)
  have ret: "fst ?r = Returned 0" by code_simp
  then have call: "bread 0 1 0 2 bcache_two = (Returned 0, fst (snd ?r), snd (snd ?r))"
    by (metis prod.collapse)
  have fresh: "valid (bufs (fst (snd (bget 0 1 0 2 bcache_two))) 0) = 0" by code_simp
  note fill = inst [THEN conjunct2, THEN conjunct2, THEN conjunct1, rule_format, OF call]
  then obtain sg where sg: "bget 0 1 0 2 bcache_two = (Returned 0, sg, snd (snd ?r))"
    and rd: "valid (bufs sg 0) = 0 \<longrightarrow>
         disk_reads (fst (snd ?r)) = disk_reads bcache_two + 1 \<and>
         valid (bufs (fst (snd ?r)) 0) = 1"
    by blast
  from sg fresh have "valid (bufs sg 0) = 0" by simp
  with rd have once: "disk_reads (fst (snd ?r)) = disk_reads bcache_two + 1"
    and val: "valid (bufs (fst (snd ?r)) 0) = 1" by simp_all
  from un bcache_two_unlocked victim mid mid_reads pcs reads ret once val
  show ?thesis by blast
qed

text \<open>
  The claim as the specification words it, with no condition on what else runs, fails.
  In the cache of two buffers, processes 0 and 1 both read block 2 of device 0, which
  is on no buffer, and both miss on the fast path. Process 0 recycles buffer 0, reads
  the block and releases the buffer, whose \<open>refcnt\<close> is 0 again. Process 2 recycles this
  buffer for block 1. The re-scan of process 1 misses, so it recycles buffer 1 and reads
  block 2 a second time: the two readers of the key got different buffers, and the disk
  was read twice.
\<close>

theorem same_key_readers_diverge:
  "scan_key (bufs bcache_two) 0 2 (head bcache_two (hash_val 2)) = None \<and>
   (\<forall>b. lock_holder (bufs bcache_two b) = None) \<and>
   other_reader 0 = (0, 2) \<and> other_reader 1 = (0, 2) \<and> other_reader 2 = (0, 1) \<and>
   snd (exec other_reader (take 2 evicted_between) (bcache_two, replicate 3 Start))
     = [Missed, Missed, Start] \<and>
   snd (exec other_reader (take 7 evicted_between) (bcache_two, replicate 3 Start))
     = [Done 0, Missed, Start] \<and>
   disk_reads (fst (exec other_reader (take 7 evicted_between) (bcache_two, replicate 3 Start)))
     = disk_reads bcache_two + 1 \<and>
   refcnt (bufs (fst (exec other_reader (take 7 evicted_between)
                        (bcache_two, replicate 3 Start))) 0) = 0 \<and>
   snd (exec other_reader (take 9 evicted_between) (bcache_two, replicate 3 Start))
     = [Done 0, Missed, WaitSleep 0] \<and>
   snd (exec other_reader evicted_between (bcache_two, replicate 3 Start))
     = [Done 0, Using 1, WaitSleep 0] \<and>
   disk_reads (fst (exec other_reader evicted_between (bcache_two, replicate 3 Start)))
     = disk_reads bcache_two + 2"
proof -
  have 1: "scan_key (bufs bcache_two) 0 2 (head bcache_two (hash_val 2)) = None" by code_simp
  have 2: "other_reader 0 = (0, 2) \<and> other_reader 1 = (0, 2) \<and> other_reader 2 = (0, 1)"
    by (simp add: other_reader_def)
  have 3: "snd (exec other_reader (take 2 evicted_between) (bcache_two, replicate 3 Start))
     = [Missed, Missed, Start]" by code_simp
  have 4: "snd (exec other_reader (take 7 evicted_between) (bcache_two, replicate 3 Start))
     = [Done 0, Missed, Start]" by code_simp
  have 5: "disk_reads (fst (exec other_reader (take 7 evicted_between)
                             (bcache_two, replicate 3 Start)))
     = disk_reads bcache_two + 1" by code_simp
  have 6: "refcnt (bufs (fst (exec other_reader (take 7 evicted_between)
                        (bcache_two, replicate 3 Start))) 0) = 0" by code_simp
  have 7: "snd (exec other_reader (take 9 evicted_between) (bcache_two, replicate 3 Start))
     = [Done 0, Missed, WaitSleep 0]" by code_simp
  have 8: "snd (exec other_reader evicted_between (bcache_two, replicate 3 Start))
     = [Done 0, Using 1, WaitSleep 0]" by code_simp
  have 9: "disk_reads (fst (exec other_reader evicted_between (bcache_two, replicate 3 Start)))
     = disk_reads bcache_two + 2" by code_simp
  from 1 bcache_two_unlocked 2 3 4 5 6 7 8 9 show ?thesis by blast
qed

end
